theory Spec2Isabelle
  imports Main
begin

section \<open>The platform: time values and the Date object\<close>

text \<open>
  \<^verbatim>\<open>generate-work-report.js\<close> computes all of its date ranges with the built-in
  \<^verbatim>\<open>Date\<close> object. A \<^verbatim>\<open>Date\<close> holds a time value: milliseconds since
  1970-01-01T00:00:00Z. The definitions of this section follow the abstract operations of
  the ECMAScript specification (Day, TimeWithinDay, DayFromYear, YearFromTime, MonthFromTime,
  DateFromTime, WeekDay, MakeTime, MakeDay, MakeDate, LocalTime, UTC).

  Time values are unbounded integers; the clipping of time values beyond
  \<open>\<plusminus>8.64e15\<close> ms to an invalid date is not modelled. An invalid date arises only
  from parsing, where it is \<open>None\<close>.
\<close>

type_synonym time = int

definition msPerDay :: int where
  "msPerDay = 86400000"

definition Day :: "time \<Rightarrow> int" where
  "Day t = t div msPerDay"

definition TimeWithinDay :: "time \<Rightarrow> int" where
  "TimeWithinDay t = t mod msPerDay"

definition InLeapYear :: "int \<Rightarrow> bool" where
  "InLeapYear y = ((y mod 4 = 0 \<and> y mod 100 \<noteq> 0) \<or> y mod 400 = 0)"

definition DaysInYear :: "int \<Rightarrow> int" where
  "DaysInYear y = (if InLeapYear y then 366 else 365)"

definition DayFromYear :: "int \<Rightarrow> int" where
  "DayFromYear y =
     365 * (y - 1970) + (y - 1969) div 4 - (y - 1901) div 100 + (y - 1601) div 400"

text \<open>
  \<open>YearFromTime t\<close> is the largest year whose first day is not after \<open>t\<close>. It is
  found by a search upwards from a year that is not too large; the search ends because
  every year has at least 365 days.
\<close>

lemma div_succ_int:
  fixes n k :: int
  assumes "0 < k"
  shows "(n + 1) div k = n div k + (if (n + 1) mod k = 0 then 1 else 0)"
proof -
  define q r where "q = n div k" and "r = n mod k"
  have r: "0 \<le> r" "r < k"
    using assms by (simp_all add: r_def)
  have n: "n = r + k * q"
    by (simp add: q_def r_def)
  show ?thesis
  proof (cases "r + 1 < k")
    case True
    have e: "n + 1 = (r + 1) + k * q"
      using n by simp
    have "(n + 1) div k = q + (r + 1) div k"
      unfolding e using assms by (simp only: div_mult_self2) 
    moreover have "(r + 1) div k = 0"
      using True r by (simp add: div_pos_pos_trivial)
    moreover have "(n + 1) mod k = (r + 1) mod k"
      unfolding e by (simp only: mod_mult_self2)
    moreover have "(r + 1) mod k = r + 1"
      using True r by (simp add: mod_pos_pos_trivial)
    ultimately show ?thesis
      using r by (simp add: q_def)
  next
    case False
    then have k: "r + 1 = k"
      using r by linarith
    have e: "n + 1 = 0 + k * (q + 1)"
      using n k by (simp add: algebra_simps)
    have "(n + 1) div k = (q + 1) + 0 div k"
      unfolding e using assms by (simp only: div_mult_self2)
    moreover have "(n + 1) mod k = 0 mod k"
      unfolding e by (simp only: mod_mult_self2)
    ultimately show ?thesis
      by (simp add: q_def)
  qed
qed

lemma div_shift_step:
  fixes y k c :: int
  assumes "0 < k"
  shows "(y + 1 - (k * c + 1)) div k = (y - (k * c + 1)) div k + (if y mod k = 0 then 1 else 0)"
proof -
  have "(y - (k * c + 1) + 1) mod k = (y + k * (- c)) mod k"
    by (simp add: algebra_simps)
  also have "\<dots> = y mod k"
    by (simp only: mod_mult_self2)
  finally have "(y - (k * c + 1) + 1) mod k = y mod k" .
  then show ?thesis
    using div_succ_int [OF assms, of "y - (k * c + 1)"] by (simp add: algebra_simps)
qed

lemma DayFromYear_Suc: "DayFromYear (y + 1) = DayFromYear y + DaysInYear y"
proof -
  have a: "(y + 1 - 1969) div 4 = (y - 1969) div 4 + (if y mod 4 = 0 then 1 else 0)"
    using div_shift_step [of 4 y 492] by simp
  have b: "(y + 1 - 1901) div 100 = (y - 1901) div 100 + (if y mod 100 = 0 then 1 else 0)"
    using div_shift_step [of 100 y 19] by simp
  have c: "(y + 1 - 1601) div 400 = (y - 1601) div 400 + (if y mod 400 = 0 then 1 else 0)"
    using div_shift_step [of 400 y 4] by simp
  have d1: "y mod 100 = 0" if "y mod 400 = 0"
  proof -
    from that obtain q where "y = 400 * q" by (auto simp: mod_eq_0_iff_dvd)
    then have "y = 100 * (4 * q)" by simp
    then show ?thesis by (simp only: mod_mult_self1_is_0)
  qed
  have d2: "y mod 4 = 0" if "y mod 100 = 0"
  proof -
    from that obtain q where "y = 100 * q" by (auto simp: mod_eq_0_iff_dvd)
    then have "y = 4 * (25 * q)" by simp
    then show ?thesis by (simp only: mod_mult_self1_is_0)
  qed
  have "DayFromYear (y + 1) =
      365 * (y - 1970) + 365 + (y + 1 - 1969) div 4 - (y + 1 - 1901) div 100
        + (y + 1 - 1601) div 400"
    unfolding DayFromYear_def by simp
  also have "\<dots> = DayFromYear y + 365 + (if y mod 4 = 0 then 1 else 0)
        - (if y mod 100 = 0 then 1 else 0) + (if y mod 400 = 0 then 1 else 0)"
    unfolding a b c DayFromYear_def by simp
  also have "\<dots> = DayFromYear y + DaysInYear y"
    unfolding DaysInYear_def InLeapYear_def using d1 d2
    by (cases "y mod 4 = 0"; cases "y mod 100 = 0"; cases "y mod 400 = 0") simp_all
  finally show ?thesis .
qed

function yearSearch :: "int \<Rightarrow> int \<Rightarrow> int" where
  "yearSearch d y = (if DayFromYear (y + 1) \<le> d then yearSearch d (y + 1) else y)"
  by pat_completeness auto
termination
  by (relation "measure (\<lambda>(d, y). nat (d - DayFromYear y))")
     (auto simp: DayFromYear_Suc DaysInYear_def split: if_splits)

declare yearSearch.simps [simp del]

definition YearFromTime :: "time \<Rightarrow> int" where
  "YearFromTime t =
     yearSearch (Day t) (1970 + (if 0 \<le> Day t then Day t div 366 else Day t div 365))"

definition DayWithinYear :: "time \<Rightarrow> int" where
  "DayWithinYear t = Day t - DayFromYear (YearFromTime t)"

definition leapDays :: "int \<Rightarrow> int" where
  "leapDays y = (if InLeapYear y then 1 else 0)"

definition MonthFromTime :: "time \<Rightarrow> int" where
  "MonthFromTime t =
     (let d = DayWithinYear t; L = leapDays (YearFromTime t) in
      if d < 31 then 0
      else if d < 59 + L then 1
      else if d < 90 + L then 2
      else if d < 120 + L then 3
      else if d < 151 + L then 4
      else if d < 181 + L then 5
      else if d < 212 + L then 6
      else if d < 243 + L then 7
      else if d < 273 + L then 8
      else if d < 304 + L then 9
      else if d < 334 + L then 10
      else 11)"

definition monthStart :: "int \<Rightarrow> int \<Rightarrow> int" where
  "monthStart m L =
     (if m = 0 then 0
      else if m = 1 then 31
      else if m = 2 then 59 + L
      else if m = 3 then 90 + L
      else if m = 4 then 120 + L
      else if m = 5 then 151 + L
      else if m = 6 then 181 + L
      else if m = 7 then 212 + L
      else if m = 8 then 243 + L
      else if m = 9 then 273 + L
      else if m = 10 then 304 + L
      else 334 + L)"

definition DateFromTime :: "time \<Rightarrow> int" where
  "DateFromTime t =
     DayWithinYear t - monthStart (MonthFromTime t) (leapDays (YearFromTime t)) + 1"

definition WeekDay :: "time \<Rightarrow> int" where
  "WeekDay t = (Day t + 4) mod 7"

definition HourFromTime :: "time \<Rightarrow> int" where
  "HourFromTime t = t div 3600000 mod 24"

definition MinFromTime :: "time \<Rightarrow> int" where
  "MinFromTime t = t div 60000 mod 60"

definition SecFromTime :: "time \<Rightarrow> int" where
  "SecFromTime t = t div 1000 mod 60"

definition msFromTime :: "time \<Rightarrow> int" where
  "msFromTime t = t mod 1000"

definition MakeTime :: "int \<Rightarrow> int \<Rightarrow> int \<Rightarrow> int \<Rightarrow> int" where
  "MakeTime hour minute sec ms = hour * 3600000 + minute * 60000 + sec * 1000 + ms"

definition MakeDay :: "int \<Rightarrow> int \<Rightarrow> int \<Rightarrow> int" where
  "MakeDay year month date =
     (let ym = year + month div 12; mn = month mod 12
      in DayFromYear ym + monthStart mn (leapDays ym) + date - 1)"

definition MakeDate :: "int \<Rightarrow> int \<Rightarrow> time" where
  "MakeDate day time = day * msPerDay + time"

text \<open>
  The local time zone of the process is the parameter \<open>z\<close> of everything that reads or
  sets local time. It is the operation LocalTZA of the ECMAScript specification, an offset
  in milliseconds east of UTC: \<open>z t True\<close> is the offset in force at the instant \<open>t\<close>,
  and \<open>z lt False\<close> is the offset at which the local time \<open>lt\<close> is read.
\<close>

type_synonym zone = "time \<Rightarrow> bool \<Rightarrow> int"

definition LocalTime :: "zone \<Rightarrow> time \<Rightarrow> time" where
  "LocalTime z t = t + z t True"

definition UTC :: "zone \<Rightarrow> time \<Rightarrow> time" where
  "UTC z t = t - z t False"

text \<open>
  \<open>zoneRules off changes\<close> is the zone that starts at the offset \<open>off\<close> and changes
  its clock at each instant of \<open>changes\<close> (in increasing order) to the offset given
  with it. An instant is read at the offset of the period it lies in. A local time is read
  at the offset of the first period that ends after the instant the local time stands for
  at the greater of the offsets of that period and of the next. So a local time that a
  change skips (the clock moves forward) or repeats (the clock moves back) is read at the
  offset before the change, as ECMAScript prescribes: 02:30 on the day the clock moves
  from 02:00 to 03:00 is read as 03:30 after the change, and 01:30 on the day the clock
  moves from 02:00 back to 01:00 is read as the first of the two instants with that local
  time. \<open>fixedZone tza\<close> is the zone without a change.
\<close>

fun zoneRules :: "int \<Rightarrow> (time \<times> int) list \<Rightarrow> zone" where
  "zoneRules off [] t isUTC = off"
| "zoneRules off ((change, next) # rest) t isUTC =
     (if (if isUTC then t else t - max off next) < change then off
      else zoneRules next rest t isUTC)"

definition fixedZone :: "int \<Rightarrow> zone" where
  "fixedZone tza = zoneRules tza []"

text \<open>
  A local time exists in a zone when the zone reads it back unchanged. A local time that a
  clock change skips does not exist: it is read at the offset before the change, which
  gives an instant after the change, whose local time is later by the size of the change.
\<close>

definition existsLocalTime :: "zone \<Rightarrow> time \<Rightarrow> bool" where
  "existsLocalTime z lt = (LocalTime z (UTC z lt) = lt)"

text \<open>
  A local time is read on its day when the instant it is read as has a local time on the
  same day. Every local time that exists is read on its day; a skipped one is, unless the
  clock change carries it past midnight.
\<close>

definition readOnItsDay :: "zone \<Rightarrow> time \<Rightarrow> bool" where
  "readOnItsDay z lt = (Day (LocalTime z (UTC z lt)) = Day lt)"

subsection \<open>Methods of a Date\<close>

text \<open>
  A \<open>Date\<close> is its time value; a method that changes the object returns the new time
  value. \<open>newDate z y m d\<close> is \<open>new Date(y, m, d)\<close>, which reads a year from 0 to 99
  as a year of the twentieth century.
\<close>

definition getFullYear :: "zone \<Rightarrow> time \<Rightarrow> int" where
  "getFullYear z t = YearFromTime (LocalTime z t)"

definition getMonth :: "zone \<Rightarrow> time \<Rightarrow> int" where
  "getMonth z t = MonthFromTime (LocalTime z t)"

definition getDate :: "zone \<Rightarrow> time \<Rightarrow> int" where
  "getDate z t = DateFromTime (LocalTime z t)"

definition getDay :: "zone \<Rightarrow> time \<Rightarrow> int" where
  "getDay z t = WeekDay (LocalTime z t)"

definition setDate :: "zone \<Rightarrow> time \<Rightarrow> int \<Rightarrow> time" where
  "setDate z t dt =
     (let lt = LocalTime z t
      in UTC z (MakeDate (MakeDay (YearFromTime lt) (MonthFromTime lt) dt) (TimeWithinDay lt)))"

definition setHours :: "zone \<Rightarrow> time \<Rightarrow> int \<Rightarrow> int \<Rightarrow> int \<Rightarrow> int \<Rightarrow> time" where
  "setHours z t hour minute sec ms =
     (let lt = LocalTime z t
      in UTC z (MakeDate (Day lt) (MakeTime hour minute sec ms)))"

definition newDate :: "zone \<Rightarrow> int \<Rightarrow> int \<Rightarrow> int \<Rightarrow> time" where
  "newDate z year month date =
     (let yr = (if 0 \<le> year \<and> year \<le> 99 then 1900 + year else year)
      in UTC z (MakeDate (MakeDay yr month date) (MakeTime 0 0 0 0)))"

section \<open>The platform: strings\<close>

text \<open>
  A JavaScript string is modelled as a \<^typ>\<open>string\<close>, each character standing for a code
  unit in the range U+0000 to U+00FF. The functions below are the string methods the
  program calls, restricted to the way it calls them: \<open>split\<close> with a non-empty
  separator and no limit, \<open>replace\<close> with a string pattern (first occurrence only) and
  a replacement without \<open>$\<close> patterns.
\<close>

definition isWhiteSpace :: "char \<Rightarrow> bool" where
  "isWhiteSpace c =
     (c \<in> set [CHR 0x09, CHR 0x0A, CHR 0x0B, CHR 0x0C, CHR 0x0D, CHR 0x20, CHR 0xA0])"

definition trim :: "string \<Rightarrow> string" where
  "trim s = rev (dropWhile isWhiteSpace (rev (dropWhile isWhiteSpace s)))"

definition startsWith :: "string \<Rightarrow> string \<Rightarrow> bool" where
  "startsWith s p = (take (length p) s = p)"

fun includesStr :: "string \<Rightarrow> string \<Rightarrow> bool" where
  "includesStr [] p = (p = [])"
| "includesStr (c # cs) p = (startsWith (c # cs) p \<or> includesStr cs p)"

fun replace :: "string \<Rightarrow> string \<Rightarrow> string \<Rightarrow> string" where
  "replace [] p r = (if p = [] then r else [])"
| "replace (c # cs) p r =
     (if startsWith (c # cs) p then r @ drop (length p) (c # cs) else c # replace cs p r)"

function splitFrom :: "string \<Rightarrow> string \<Rightarrow> string \<Rightarrow> string list" where
  "splitFrom sep cur s =
     (if s = [] then [cur]
      else if sep \<noteq> [] \<and> startsWith s sep then cur # splitFrom sep [] (drop (length sep) s)
      else splitFrom sep (cur @ [hd s]) (tl s))"
  by pat_completeness auto
termination
  by (relation "measure (\<lambda>(sep, cur, s). length s)") auto

declare splitFrom.simps [simp del]

definition split :: "string \<Rightarrow> string \<Rightarrow> string list" where
  "split s sep = splitFrom sep [] s"

definition toLowerChar :: "char \<Rightarrow> char" where
  "toLowerChar c =
     (let n = (of_char c :: nat)
      in if (65 \<le> n \<and> n \<le> 90) \<or> (192 \<le> n \<and> n \<le> 222 \<and> n \<noteq> 215)
         then (case c of Char b0 b1 b2 b3 b4 b5 b6 b7 \<Rightarrow> Char b0 b1 b2 b3 b4 True b6 b7)
         else c)"

definition toLowerCase :: "string \<Rightarrow> string" where
  "toLowerCase s = map toLowerChar s"

definition truthy :: "string option \<Rightarrow> bool" where
  "truthy v = (case v of None \<Rightarrow> False | Some s \<Rightarrow> s \<noteq> [])"

definition dq :: string where
  "dq = [CHR 0x22]"

definition newline :: string where
  "newline = [CHR 0x0A]"

section \<open>The platform: parsing and printing dates\<close>

text \<open>
  \<open>new Date(string)\<close> on Node follows V8. A string of the ISO date-only shape
  \<open>YYYY-MM-DD\<close> is read as midnight UTC of that day when the month is 1..12 and the
  day 1..31 (a day beyond the month's length rolls over into the next month) and is an
  invalid date otherwise. The result for any other string is left to the parameter
  \<open>legacy\<close>, which stands for V8's fallback parser; no theorem below depends on what it
  returns.
\<close>

definition isDigit :: "char \<Rightarrow> bool" where
  "isDigit c = (c \<in> set ''0123456789'')"

definition digitValue :: "char \<Rightarrow> int" where
  "digitValue c = int (of_char c) - 48"

definition toNumber :: "string \<Rightarrow> int" where
  "toNumber s = foldl (\<lambda>n c. 10 * n + digitValue c) 0 s"

definition parseIsoDate :: "string \<Rightarrow> (int \<times> int \<times> int) option" where
  "parseIsoDate s =
     (if length s = 10 \<and> s ! 4 = CHR ''-'' \<and> s ! 7 = CHR ''-''
         \<and> list_all isDigit (take 4 s)
         \<and> list_all isDigit (take 2 (drop 5 s))
         \<and> list_all isDigit (drop 8 s)
      then Some (toNumber (take 4 s), toNumber (take 2 (drop 5 s)), toNumber (drop 8 s))
      else None)"

definition Date_parse :: "(string \<Rightarrow> time option) \<Rightarrow> string \<Rightarrow> time option" where
  "Date_parse legacy s =
     (case parseIsoDate s of
        Some (y, m, d) \<Rightarrow>
          if 1 \<le> m \<and> m \<le> 12 \<and> 1 \<le> d \<and> d \<le> 31
          then Some (MakeDate (MakeDay y (m - 1) d) (MakeTime 0 0 0 0))
          else None
      | None \<Rightarrow> legacy s)"

definition digitChar :: "nat \<Rightarrow> char" where
  "digitChar d = ''0123456789'' ! d"

function natToString :: "nat \<Rightarrow> string" where
  "natToString n =
     (if n < 10 then [digitChar n] else natToString (n div 10) @ [digitChar (n mod 10)])"
  by pat_completeness auto
termination
  by (relation "measure id") auto

declare natToString.simps [simp del]

definition numberToString :: "int \<Rightarrow> string" where
  "numberToString v = (if v < 0 then ''-'' @ natToString (nat (- v)) else natToString (nat v))"

definition padStart :: "string \<Rightarrow> nat \<Rightarrow> char \<Rightarrow> string" where
  "padStart s targetLength c = replicate (targetLength - length s) c @ s"

definition padNumber :: "nat \<Rightarrow> int \<Rightarrow> string" where
  "padNumber w v = padStart (numberToString v) w (CHR ''0'')"

definition toISOString :: "time \<Rightarrow> string" where
  "toISOString t =
     (let y = YearFromTime t;
          year = (if 0 \<le> y \<and> y \<le> 9999 then padNumber 4 y
                  else (if y < 0 then ''-'' else ''+'') @ padNumber 6 \<bar>y\<bar>)
      in year @ ''-'' @ padNumber 2 (MonthFromTime t + 1) @ ''-'' @ padNumber 2 (DateFromTime t)
         @ ''T'' @ padNumber 2 (HourFromTime t) @ '':'' @ padNumber 2 (MinFromTime t)
         @ '':'' @ padNumber 2 (SecFromTime t) @ ''.'' @ padNumber 3 (msFromTime t) @ ''Z'')"

section \<open>The program: date ranges\<close>

text \<open>
  The functions of \<^verbatim>\<open>generate-work-report.js\<close> that resolve a period. Each reads the
  clock with \<open>new Date()\<close>; here the reading is the argument \<open>today\<close>. The two error
  exits of \<open>getCustomRange\<close> (a message on the console and \<open>process.exit(1)\<close>) are the
  two values of \<open>exit\<close>, named after the errors of the specification.
\<close>

record dateRange =
  start :: time
  "end" :: time

definition getLastWeekRange :: "zone \<Rightarrow> time \<Rightarrow> dateRange" where
  "getLastWeekRange z today =
     (let currentDay = getDay z today;
          daysToLastSaturday = (if currentDay = 6 then 7 else currentDay + 1);
          lastSaturday = setHours z
             (setDate z today (getDate z today - daysToLastSaturday)) 23 59 59 999;
          lastSunday = setHours z
             (setDate z lastSaturday (getDate z lastSaturday - 6)) 0 0 0 0
      in \<lparr>start = lastSunday, end = lastSaturday\<rparr>)"

definition getThisWeekRange :: "zone \<Rightarrow> time \<Rightarrow> dateRange" where
  "getThisWeekRange z today =
     (let currentDay = getDay z today;
          thisSunday = setHours z
             (setDate z today (getDate z today - currentDay)) 0 0 0 0;
          end = setHours z today 23 59 59 999
      in \<lparr>start = thisSunday, end = end\<rparr>)"

definition getLastMonthRange :: "zone \<Rightarrow> time \<Rightarrow> dateRange" where
  "getLastMonthRange z today =
     (let firstDay = setHours z
             (newDate z (getFullYear z today) (getMonth z today - 1) 1) 0 0 0 0;
          lastDay = setHours z
             (newDate z (getFullYear z today) (getMonth z today) 0) 23 59 59 999
      in \<lparr>start = firstDay, end = lastDay\<rparr>)"

definition getThisMonthRange :: "zone \<Rightarrow> time \<Rightarrow> dateRange" where
  "getThisMonthRange z today =
     (let firstDay = setHours z
             (newDate z (getFullYear z today) (getMonth z today) 1) 0 0 0 0;
          end = setHours z today 23 59 59 999
      in \<lparr>start = firstDay, end = end\<rparr>)"

definition getLastQuarterRange :: "zone \<Rightarrow> time \<Rightarrow> dateRange" where
  "getLastQuarterRange z today =
     (let currentQuarter = getMonth z today div 3;
          (lastQuarterStartMonth, year) =
             (if currentQuarter = 0 then (9, getFullYear z today - 1)
              else ((currentQuarter - 1) * 3, getFullYear z today));
          firstDay = setHours z (newDate z year lastQuarterStartMonth 1) 0 0 0 0;
          lastDay = setHours z (newDate z year (lastQuarterStartMonth + 3) 0) 23 59 59 999
      in \<lparr>start = firstDay, end = lastDay\<rparr>)"

definition getLastYearRange :: "zone \<Rightarrow> time \<Rightarrow> dateRange" where
  "getLastYearRange z today =
     (let lastYear = getFullYear z today - 1;
          firstDay = setHours z (newDate z lastYear 0 1) 0 0 0 0;
          lastDay = setHours z (newDate z lastYear 11 31) 23 59 59 999
      in \<lparr>start = firstDay, end = lastDay\<rparr>)"

definition getThisYearRange :: "zone \<Rightarrow> time \<Rightarrow> dateRange" where
  "getThisYearRange z today =
     (let firstDay = setHours z (newDate z (getFullYear z today) 0 1) 0 0 0 0;
          end = setHours z today 23 59 59 999
      in \<lparr>start = firstDay, end = end\<rparr>)"

datatype exit = InvalidDateError | InvertedRangeError

definition getCustomRange ::
  "zone \<Rightarrow> (string \<Rightarrow> time option) \<Rightarrow> string \<Rightarrow> string \<Rightarrow> exit + dateRange" where
  "getCustomRange z legacy fromDate toDate =
     (let start = map_option (\<lambda>t. setHours z t 0 0 0 0) (Date_parse legacy fromDate);
          end = map_option (\<lambda>t. setHours z t 23 59 59 999) (Date_parse legacy toDate)
      in case (start, end) of
           (Some s, Some e) \<Rightarrow>
             if s > e then Inl InvertedRangeError else Inr \<lparr>start = s, end = e\<rparr>
         | _ \<Rightarrow> Inl InvalidDateError)"

definition getDateRange ::
  "zone \<Rightarrow> (string \<Rightarrow> time option) \<Rightarrow> time \<Rightarrow> string option \<Rightarrow> string option \<Rightarrow> string option
     \<Rightarrow> exit + dateRange" where
  "getDateRange z legacy today period fromDate toDate =
     (if truthy fromDate \<and> truthy toDate
      then getCustomRange z legacy (the fromDate) (the toDate)
      else
        (let p = map_option toLowerCase period in
         if p = Some ''thisweek'' then Inr (getThisWeekRange z today)
         else if p = Some ''month'' then Inr (getLastMonthRange z today)
         else if p = Some ''thismonth'' then Inr (getThisMonthRange z today)
         else if p = Some ''quarter'' then Inr (getLastQuarterRange z today)
         else if p = Some ''year'' then Inr (getLastYearRange z today)
         else if p = Some ''thisyear'' then Inr (getThisYearRange z today)
         else Inr (getLastWeekRange z today)))"

definition formatDateForGit :: "time \<Rightarrow> string" where
  "formatDateForGit date =
     (case split (toISOString date) ''T'' of [] \<Rightarrow> ''undefined'' | x # _ \<Rightarrow> x)"

definition formatDateForFilename :: "zone \<Rightarrow> time \<Rightarrow> string" where
  "formatDateForFilename z date =
     (let months = [''Jan'', ''Feb'', ''Mar'', ''Apr'', ''May'', ''Jun'',
                    ''Jul'', ''Aug'', ''Sep'', ''Oct'', ''Nov'', ''Dec''];
          month = months ! nat (getMonth z date);
          day = padStart (numberToString (getDate z date)) 2 (CHR ''0'');
          year = numberToString (getFullYear z date)
      in month @ ''-'' @ day @ ''-'' @ year)"

section \<open>The program: branches and commits\<close>

text \<open>
  The program reads the repository through \<open>execSync\<close>. The parameter \<open>exec\<close> stands for
  it: the command line is mapped to the text the command prints, or to \<open>None\<close> when the
  command fails (\<open>execSync\<close> throws). The repository does not change while a report is
  generated, so \<open>exec\<close> is a function of the command line alone; the initial
  \<open>git fetch\<close>, whose result and failure are both discarded, has no counterpart.
\<close>

definition gitBranchCommand :: string where
  "gitBranchCommand = ''git branch -a --format='' @ dq @ ''%(refname:short)'' @ dq"

definition getAllBranches :: "(string \<Rightarrow> string option) \<Rightarrow> string list" where
  "getAllBranches exec =
     (case exec gitBranchCommand of
        None \<Rightarrow> []
      | Some output \<Rightarrow>
          map (\<lambda>branch. replace (trim branch) ''origin/'' '''')
            (filter (\<lambda>branch. \<not> includesStr branch ''stash'' \<and> \<not> startsWith branch ''tag:'')
              (filter (\<lambda>branch. trim branch \<noteq> [])
                (split output newline))))"

record commit =
  hash :: string
  fullHash :: string
  message :: string
  author :: string
  date :: string

definition gitLogCommand :: "string \<Rightarrow> time \<Rightarrow> time \<Rightarrow> string option \<Rightarrow> string" where
  "gitLogCommand branch startDate endDate authorArg =
     (let authorFilter = (if truthy authorArg then ''--author='' @ dq @ the authorArg @ dq else '''');
          dateFormat = ''%Y-%m-%d %H:%M'';
          format = ''%H|||%s|||%an|||%ad''
      in ''git log '' @ branch @ '' --since='' @ dq @ formatDateForGit startDate @ dq
         @ '' --until='' @ dq @ formatDateForGit endDate @ '' 23:59:59'' @ dq
         @ '' '' @ authorFilter @ '' --format='' @ dq @ format @ dq
         @ '' --date=format:'' @ dq @ dateFormat @ dq)"

text \<open>
  One line of the log. A line with fewer than four \<open>|||\<close>-separated fields leaves
  \<open>message\<close>, \<open>authorName\<close> or \<open>date\<close> undefined, and the call of \<open>trim\<close> on it throws
  a TypeError: that is \<open>None\<close>.
\<close>

definition parseLogLine :: "string \<Rightarrow> commit option" where
  "parseLogLine line =
     (case split line ''|||'' of
        h # m # a # d # rest \<Rightarrow>
          Some \<lparr>hash = take 7 h, fullHash = h, message = trim m, author = trim a, date = trim d\<rparr>
      | _ \<Rightarrow> None)"

definition getCommitsForBranch ::
  "(string \<Rightarrow> string option) \<Rightarrow> string \<Rightarrow> time \<Rightarrow> time \<Rightarrow> string option \<Rightarrow> commit list" where
  "getCommitsForBranch exec branch startDate endDate authorArg =
     (case exec (gitLogCommand branch startDate endDate authorArg) of
        None \<Rightarrow> []
      | Some output \<Rightarrow>
          (case those (map parseLogLine (filter (\<lambda>line. trim line \<noteq> []) (split output newline))) of
             None \<Rightarrow> []
           | Some commits \<Rightarrow> commits))"

text \<open>
  \<open>[...new Set(branches)]\<close>: the elements in the order of their first occurrence.
\<close>

definition uniqueInOrder :: "'a list \<Rightarrow> 'a list" where
  "uniqueInOrder xs = fold (\<lambda>x seen. if x \<in> set seen then seen else seen @ [x]) xs []"

text \<open>
  \<open>commits.filter(...)\<close> with its side effect on \<open>globalSeenHashes\<close>: the commits kept and
  the set afterwards.
\<close>

fun filterUnique :: "string set \<Rightarrow> commit list \<Rightarrow> commit list \<times> string set" where
  "filterUnique seen [] = ([], seen)"
| "filterUnique seen (c # cs) =
     (if fullHash c \<in> seen then filterUnique seen cs
      else (case filterUnique (insert (fullHash c) seen) cs of
              (kept, seen') \<Rightarrow> (c # kept, seen')))"

text \<open>
  \<open>commitsByBranch\<close> is created as \<open>{}\<close> and is read by its callers through
  \<open>Object.keys\<close> and \<open>Object.values\<close> only, so it is modelled by the list of its own
  properties. An assignment \<open>commitsByBranch[branch] = v\<close> adds or replaces the own
  property \<open>branch\<close>, except for the name \<open>__proto__\<close>: that assignment runs the setter
  inherited from \<open>Object.prototype\<close>, which makes the array \<open>v\<close> the prototype of the object
  and creates no own property. The order in which JavaScript enumerates the properties
  (names that are array indices first) is not modelled.
\<close>

type_synonym 'v object = "(string \<times> 'v) list"

definition setProperty :: "'v object \<Rightarrow> string \<Rightarrow> 'v \<Rightarrow> 'v object" where
  "setProperty obj key v =
     (if key = ''__proto__'' then obj
      else if key \<in> fst ` set obj then map (\<lambda>(k, w). if k = key then (k, v) else (k, w)) obj
      else obj @ [(key, v)])"

definition Object_keys :: "'v object \<Rightarrow> string list" where
  "Object_keys obj = map fst obj"

definition Object_values :: "'v object \<Rightarrow> 'v list" where
  "Object_values obj = map snd obj"

text \<open>
  The loop of \<open>getCommitsByBranch\<close>, one branch at a time, on the pair of
  \<open>commitsByBranch\<close> and \<open>globalSeenHashes\<close>. Failures of \<open>execSync\<close> are caught inside
  \<open>getAllBranches\<close> and \<open>getCommitsForBranch\<close> and nothing else in the loop throws, so the
  outer \<open>catch\<close> of \<open>getCommitsByBranch\<close> is never entered and the function always returns
  the object it has built.
\<close>

definition branchStep ::
  "(string \<Rightarrow> string option) \<Rightarrow> time \<Rightarrow> time \<Rightarrow> string option \<Rightarrow> string
     \<Rightarrow> commit list object \<times> string set \<Rightarrow> commit list object \<times> string set" where
  "branchStep exec startDate endDate authorArg branch state =
     (case state of (commitsByBranch, globalSeenHashes) \<Rightarrow>
        (let commits = getCommitsForBranch exec branch startDate endDate authorArg in
         case filterUnique globalSeenHashes commits of
           (uniqueCommits, seen') \<Rightarrow>
             (if length uniqueCommits > 0
              then setProperty commitsByBranch branch uniqueCommits
              else commitsByBranch, seen')))"

definition getCommitsByBranch ::
  "(string \<Rightarrow> string option) \<Rightarrow> time \<Rightarrow> time \<Rightarrow> string option \<Rightarrow> commit list object" where
  "getCommitsByBranch exec startDate endDate authorArg =
     (let branches = getAllBranches exec;
          uniqueBranches = uniqueInOrder branches
      in fst (fold (branchStep exec startDate endDate authorArg) uniqueBranches ([], {})))"

text \<open>The total the reports print: the sum of the lengths of \<open>Object.values(commitsByBranch)\<close>.\<close>

definition totalCommits :: "commit list object \<Rightarrow> nat" where
  "totalCommits commitsByBranch = sum_list (map length (Object_values commitsByBranch))"

section \<open>Example zones\<close>

text \<open>
  Zones with clock changes, used where a theorem is applied to a concrete input. Each
  follows the rules of a zone of the time zone database over the months named.
  \<^item> \<open>newYork\<close> is America/New_York from January 2025 to March 2027: UTC-05:00, and
    UTC-04:00 from 2025-03-09T07:00Z to 2025-11-02T06:00Z and from 2026-03-08T07:00Z to
    2026-11-01T06:00Z. The clock changes at 02:00 local time on a Sunday.
  \<^item> \<open>santiago\<close> is America/Santiago from April 2026 to April 2027: UTC-04:00 until
    2026-09-06T04:00Z, then UTC-03:00. The clock moves from Sunday 00:00 to 01:00.
  \<^item> \<open>asuncion\<close> is America/Asuncion from March 2023 to March 2024: UTC-04:00 until
    2023-10-01T04:00Z, then UTC-03:00. The clock moves from October 1 00:00 to 01:00.
  \<^item> \<open>nuuk\<close> is America/Nuuk from October 2025 to October 2026: UTC-02:00 until
    2026-03-29T01:00Z, then UTC-01:00. The clock moves from Saturday 23:00 to Sunday 00:00.
\<close>

definition newYork :: zone where
  "newYork = zoneRules (- 18000000)
     [(1741503600000, - 14400000), (1762063200000, - 18000000),
      (1772953200000, - 14400000), (1793512800000, - 18000000)]"

definition santiago :: zone where
  "santiago = zoneRules (- 14400000) [(1788667200000, - 10800000)]"

definition asuncion :: zone where
  "asuncion = zoneRules (- 14400000) [(1696132800000, - 10800000)]"

definition nuuk :: zone where
  "nuuk = zoneRules (- 7200000) [(1774746000000, - 3600000)]"

section \<open>Listings, seen hashes and example repositories\<close>

text \<open>
  \<open>seenFrom exec s e a bs\<close> is the set of full hashes the log returns for the branches
  \<open>bs\<close>: what \<open>globalSeenHashes\<close> holds once the loop has visited them.
\<close>

definition seenFrom ::
  "(string \<Rightarrow> string option) \<Rightarrow> time \<Rightarrow> time \<Rightarrow> string option \<Rightarrow> string list \<Rightarrow> string set" where
  "seenFrom exec s e a bs = (\<Union>b\<in>set bs. fullHash ` set (getCommitsForBranch exec b s e a))"

text \<open>
  \<open>git branch\<close> prints one ref per line, each line ended by a line feed.
  \<open>joinLines refs\<close> is that output for the refs \<open>refs\<close>.
\<close>

definition joinLines :: "string list \<Rightarrow> string" where
  "joinLines refs = concat (map (\<lambda>l. l @ newline) refs)"

text \<open>
  The refs the enumeration drops, as its filter says: any line that contains \<open>stash\<close>,
  wherever in the line, and any line that starts with \<open>tag:\<close>.
\<close>

definition excludedRef :: "string \<Rightarrow> bool" where
  "excludedRef line = (includesStr line ''stash'' \<or> startsWith line ''tag:'')"

text \<open>
  Example repositories, used where a theorem is applied to a concrete input. In each of
  them the log of a branch is the same for all dates and authors. \<open>mergedRepo\<close> is the
  repository of the specification's example: \<open>feature\<close> holds the commit \<open>c1\<close> and is merged
  into \<open>main\<close>, which holds \<open>c2\<close> as well. In \<open>brokenRepo\<close> the log of the branch \<open>gone\<close>
  fails; \<open>noRepo\<close> is a directory where every command fails.
\<close>

definition logLine :: "string \<Rightarrow> string \<Rightarrow> string \<Rightarrow> string \<Rightarrow> string" where
  "logLine h m a d = h @ ''|||'' @ m @ ''|||'' @ a @ ''|||'' @ d @ newline"

definition c1 :: string where
  "c1 = logLine ''c1c1c1c1c1c1c1c1c1c1c1c1c1c1c1c1c1c1c1c1'' ''add parser'' ''Ann'' ''2026-01-05 10:00''"

definition c2 :: string where
  "c2 = logLine ''c2c2c2c2c2c2c2c2c2c2c2c2c2c2c2c2c2c2c2c2'' ''fix build'' ''Bob'' ''2026-01-06 09:30''"

definition c3 :: string where
  "c3 = logLine ''c3c3c3c3c3c3c3c3c3c3c3c3c3c3c3c3c3c3c3c3'' ''try idea'' ''Ann'' ''2026-01-07 16:45''"

definition mergedRepo :: "string \<Rightarrow> string option" where
  "mergedRepo cmd =
     (if cmd = gitBranchCommand then Some (''main'' @ newline @ ''feature'' @ newline)
      else if startsWith cmd ''git log main '' then Some (c2 @ c1)
      else if startsWith cmd ''git log feature '' then Some c1
      else None)"

definition brokenRepo :: "string \<Rightarrow> string option" where
  "brokenRepo cmd =
     (if cmd = gitBranchCommand then Some (''gone'' @ newline @ ''main'' @ newline)
      else if startsWith cmd ''git log main '' then Some (c2 @ c1)
      else None)"

definition protoRepo :: "string \<Rightarrow> string option" where
  "protoRepo cmd =
     (if cmd = gitBranchCommand then Some (''main'' @ newline @ ''__proto__'' @ newline)
      else if startsWith cmd ''git log main '' then Some (c2 @ c1)
      else if startsWith cmd ''git log __proto__ '' then Some c3
      else None)"

definition stashRepo :: "string \<Rightarrow> string option" where
  "stashRepo cmd =
     (if cmd = gitBranchCommand then Some (joinLines [''main'', ''fix-stash-bug''])
      else if startsWith cmd ''git log main '' then Some c1
      else if startsWith cmd ''git log fix-stash-bug '' then Some (c2 @ c1)
      else None)"

definition upstreamRepo :: "string \<Rightarrow> string option" where
  "upstreamRepo cmd =
     (if cmd = gitBranchCommand then Some (joinLines [''main'', ''upstream/main''])
      else if startsWith cmd ''git log main '' then Some (c2 @ c1)
      else None)"

definition originRepo :: "string \<Rightarrow> string option" where
  "originRepo cmd =
     (if cmd = gitBranchCommand then Some (joinLines [''main'', ''origin/main'', ''origin/feature''])
      else if startsWith cmd ''git log main '' then Some (c2 @ c1)
      else if startsWith cmd ''git log feature '' then Some c1
      else None)"

definition noRepo :: "string \<Rightarrow> string option" where
  "noRepo cmd = None"

section \<open>The calendar\<close>

subsection \<open>Years\<close>

lemma DaysInYear_pos: "365 \<le> DaysInYear y"
  by (simp add: DaysInYear_def)

lemma yearSearch_bounds:
  "DayFromYear y \<le> d \<Longrightarrow>
     DayFromYear (yearSearch d y) \<le> d \<and> d < DayFromYear (yearSearch d y + 1)"
proof (induction d y rule: yearSearch.induct)
  case (1 d y)
  show ?case
  proof (cases "DayFromYear (y + 1) \<le> d")
    case True
    then show ?thesis
      using "1.IH" by (subst (1 2) yearSearch.simps) simp
  next
    case False
    then show ?thesis
      using "1.prems" by (subst (1 2) yearSearch.simps) simp
  qed
qed

lemma DayFromYear_1970: "DayFromYear 1970 = 0"
  by (simp add: DayFromYear_def)

lemma DayFromYear_upper: "0 \<le> k \<Longrightarrow> DayFromYear (1970 + k) \<le> 366 * k"
proof (induction k rule: int_ge_induct)
  case base
  then show ?case by (simp add: DayFromYear_1970)
next
  case (step i)
  have "DayFromYear (1970 + (i + 1)) = DayFromYear (1970 + i) + DaysInYear (1970 + i)"
    using DayFromYear_Suc [of "1970 + i"] by (simp add: algebra_simps)
  then show ?case
    using step.IH by (simp add: DaysInYear_def split: if_splits)
qed

lemma DayFromYear_lower: "k \<le> 0 \<Longrightarrow> DayFromYear (1970 + k) \<le> 365 * k"
proof (induction k rule: int_le_induct)
  case base
  then show ?case by (simp add: DayFromYear_1970)
next
  case (step i)
  have "DayFromYear (1970 + i) = DayFromYear (1970 + (i - 1)) + DaysInYear (1970 + (i - 1))"
    using DayFromYear_Suc [of "1970 + (i - 1)"] by (simp add: algebra_simps)
  then show ?case
    using step.IH by (simp add: DaysInYear_def split: if_splits)
qed

lemma YearFromTime_bounds:
  "DayFromYear (YearFromTime t) \<le> Day t \<and> Day t < DayFromYear (YearFromTime t + 1)"
proof -
  have "DayFromYear (1970 + (if 0 \<le> Day t then Day t div 366 else Day t div 365)) \<le> Day t"
  proof (cases "0 \<le> Day t")
    case True
    then have "0 \<le> Day t div 366" by simp
    from DayFromYear_upper [OF this] have "DayFromYear (1970 + Day t div 366) \<le> 366 * (Day t div 366)" .
    moreover have "366 * (Day t div 366) \<le> Day t"
      by (simp add: algebra_simps)
    ultimately show ?thesis using True by simp
  next
    case False
    then have "Day t div 365 \<le> 0"
      using div_nonpos_pos_le0 [of "Day t" 365] by simp
    from DayFromYear_lower [OF this] have "DayFromYear (1970 + Day t div 365) \<le> 365 * (Day t div 365)" .
    moreover have "365 * (Day t div 365) \<le> Day t"
      by (simp add: algebra_simps)
    ultimately show ?thesis using False by simp
  qed
  then show ?thesis
    unfolding YearFromTime_def by (rule yearSearch_bounds)
qed

lemma DayFromYear_mono: "y \<le> z \<Longrightarrow> DayFromYear y \<le> DayFromYear z"
proof (induction z rule: int_ge_induct)
  case base
  then show ?case by simp
next
  case (step i)
  then show ?case
    using DayFromYear_Suc [of i] DaysInYear_pos [of i] by simp
qed

lemma YearFromTime_unique:
  assumes "DayFromYear y \<le> Day t" and "Day t < DayFromYear (y + 1)"
  shows "YearFromTime t = y"
proof (rule ccontr)
  assume ne: "YearFromTime t \<noteq> y"
  note b = YearFromTime_bounds [of t]
  show False
  proof (cases "YearFromTime t < y")
    case True
    then have "DayFromYear (YearFromTime t + 1) \<le> DayFromYear y"
      by (intro DayFromYear_mono) simp
    with b assms show False by simp
  next
    case False
    with ne have "y + 1 \<le> YearFromTime t" by simp
    then have "DayFromYear (y + 1) \<le> DayFromYear (YearFromTime t)"
      by (rule DayFromYear_mono)
    with b assms show False by simp
  qed
qed

lemma leapDays_range: "0 \<le> leapDays y \<and> leapDays y \<le> 1"
  by (simp add: leapDays_def)

lemma DaysInYear_leapDays: "DaysInYear y = 365 + leapDays y"
  by (simp add: DaysInYear_def leapDays_def)


subsection \<open>Months and days\<close>

lemma MonthFromTime_range: "0 \<le> MonthFromTime t \<and> MonthFromTime t \<le> 11"
  by (simp add: MonthFromTime_def Let_def)

lemma month_cases:
  fixes m :: int
  assumes "0 \<le> m" "m \<le> 11"
  obtains "m = 0" | "m = 1" | "m = 2" | "m = 3" | "m = 4" | "m = 5"
    | "m = 6" | "m = 7" | "m = 8" | "m = 9" | "m = 10" | "m = 11"
  using assms by atomize_elim arith


lemma monthStart_bounds:
  assumes "0 \<le> m" "m \<le> 11" "0 \<le> L" "L \<le> 1"
  shows "0 \<le> monthStart m L \<and> monthStart m L + 31 \<le> 365 + L"
  using assms(1,2) by (cases rule: month_cases) (use assms in \<open>simp_all add: monthStart_def\<close>)

lemma monthStart_length:
  assumes "0 \<le> m" "m \<le> 11" "0 \<le> L" "L \<le> 1"
  shows "(if m = 11 then 365 + L else monthStart (m + 1) L) \<le> monthStart m L + 31"
  using assms(1,2) by (cases rule: month_cases) (use assms in \<open>simp_all add: monthStart_def\<close>)

lemma MakeDay_current:
  "MakeDay (YearFromTime t) (MonthFromTime t) (DateFromTime t + k) = Day t + k"
proof -
  have "MonthFromTime t div 12 = 0" "MonthFromTime t mod 12 = MonthFromTime t"
    using MonthFromTime_range [of t] by simp_all
  then show ?thesis
    by (simp add: MakeDay_def DateFromTime_def DayWithinYear_def)
qed

lemma MakeDay_in_year:
  assumes "0 \<le> m" "m \<le> 11"
  shows "MakeDay y m d = DayFromYear y + monthStart m (leapDays y) + d - 1"
proof -
  have "m div 12 = 0" "m mod 12 = m"
    using assms by simp_all
  then show ?thesis
    by (simp add: MakeDay_def)
qed


lemma MakeDay_year_shift: "MakeDay y (m + 12) d = MakeDay (y + 1) m d"
proof -
  have "(m + 12) div 12 = m div 12 + 1" "(m + 12) mod 12 = m mod 12"
    by simp_all
  then show ?thesis
    by (simp add: MakeDay_def Let_def algebra_simps)
qed



lemma fields_of_MakeDay:
  assumes m: "0 \<le> m" "m \<le> 11"
    and d: "1 \<le> d"
      "monthStart m (leapDays y) + d \<le> (if m = 11 then 365 + leapDays y else monthStart (m + 1) (leapDays y))"
    and t: "Day t = MakeDay y m d"
  shows "YearFromTime t = y" and "MonthFromTime t = m" and "DateFromTime t = d"
proof -
  define L where "L = leapDays y"
  have L: "0 \<le> L" "L \<le> 1"
    using leapDays_range [of y] by (simp_all add: L_def)
  have day: "Day t = DayFromYear y + monthStart m L + d - 1"
    using t MakeDay_in_year [OF m] by (simp add: L_def)
  have up: "monthStart m L + d \<le> 365 + L"
  proof (cases "m = 11")
    case True
    then show ?thesis using d by (simp add: L_def)
  next
    case False
    then have "monthStart m L + d \<le> monthStart (m + 1) L"
      using d by (simp add: L_def)
    moreover have "monthStart (m + 1) L + 31 \<le> 365 + L"
      using m False L by (intro conjunct2 [OF monthStart_bounds]) simp_all
    ultimately show ?thesis by simp
  qed
  have lo: "0 \<le> monthStart m L"
    using monthStart_bounds [OF m L] by simp
  show y: "YearFromTime t = y"
  proof (rule YearFromTime_unique)
    show "DayFromYear y \<le> Day t"
      using day lo d by simp
    show "Day t < DayFromYear (y + 1)"
      using day up by (simp add: DayFromYear_Suc DaysInYear_leapDays L_def)
  qed
  have dwy: "DayWithinYear t = monthStart m L + d - 1"
    by (simp add: DayWithinYear_def y day)
  have dm: "if m = 11 then True else monthStart m L + d \<le> monthStart (m + 1) L"
    using d by (auto simp: L_def split: if_splits)
  show mo: "MonthFromTime t = m"
    unfolding MonthFromTime_def Let_def y dwy L_def [symmetric]
    using m(1,2) by (cases rule: month_cases) (use d(1) dm L in \<open>simp_all add: monthStart_def\<close>)
  show "DateFromTime t = d"
    by (simp add: DateFromTime_def mo y dwy L_def)
qed

subsection \<open>Local time\<close>

lemma Day_MakeDate: "0 \<le> tm \<Longrightarrow> tm < msPerDay \<Longrightarrow> Day (MakeDate d tm) = d"
  by (simp add: Day_def MakeDate_def msPerDay_def div_pos_pos_trivial)

lemma TimeWithinDay_MakeDate:
  "0 \<le> tm \<Longrightarrow> tm < msPerDay \<Longrightarrow> TimeWithinDay (MakeDate d tm) = tm"
  by (simp add: TimeWithinDay_def MakeDate_def msPerDay_def mod_pos_pos_trivial)

lemma MakeDate_Day: "MakeDate (Day t) (TimeWithinDay t) = t"
  by (simp add: MakeDate_def Day_def TimeWithinDay_def)

lemma LocalTime_fixedZone: "LocalTime (fixedZone tza) t = t + tza"
  by (simp add: LocalTime_def fixedZone_def)

lemma UTC_fixedZone: "UTC (fixedZone tza) t = t - tza"
  by (simp add: UTC_def fixedZone_def)

lemma LocalTime_UTC [simp]: "LocalTime (fixedZone tza) (UTC (fixedZone tza) t) = t"
  by (simp add: LocalTime_fixedZone UTC_fixedZone)

text \<open>
  In a zone without a clock change every local time exists. In any zone, \<open>setDate\<close>
  and \<open>setHours\<close> build a local time from the local fields of the date and read it
  in the zone.
\<close>

lemma existsLocalTime_fixedZone: "existsLocalTime (fixedZone tza) lt"
  by (simp add: existsLocalTime_def)

lemma existsLocalTime_readOnItsDay: "existsLocalTime z lt \<Longrightarrow> readOnItsDay z lt"
  by (simp add: existsLocalTime_def readOnItsDay_def)

text \<open>
  A zone with one clock change. The local times that do not exist are those from the
  change at the old offset up to the change at the new one: the hour the clock skips when
  it moves forward. Such a local time is read back later by the size of the change. When
  the clock moves back, a local time of the repeated hour is read as the instant before
  the change.
\<close>

lemma LocalTime_one_change:
  "LocalTime (zoneRules off [(change, next)]) t = (if t < change then t + off else t + next)"
  by (simp add: LocalTime_def)

lemma UTC_one_change:
  "UTC (zoneRules off [(change, next)]) lt
     = (if lt < change + max off next then lt - off else lt - next)"
  by (simp add: UTC_def max_def)

lemma existsLocalTime_one_change:
  "existsLocalTime (zoneRules off [(change, next)]) lt
     = (\<not> (change + off \<le> lt \<and> lt < change + next))"
  by (simp add: existsLocalTime_def LocalTime_one_change UTC_one_change max_def)

lemma skipped_local_time:
  assumes "change + off \<le> lt" and "lt < change + next"
  shows "LocalTime (zoneRules off [(change, next)]) (UTC (zoneRules off [(change, next)]) lt)
           = lt + (next - off)"
  using assms by (simp add: LocalTime_one_change UTC_one_change max_def)

lemma repeated_local_time:
  assumes "change + next \<le> lt" and "lt < change + off"
  shows "UTC (zoneRules off [(change, next)]) lt = lt - off \<and> lt - off < change"
  using assms by (simp add: UTC_one_change max_def)

lemma TimeWithinDay_range: "0 \<le> TimeWithinDay t \<and> TimeWithinDay t < msPerDay"
  by (simp add: TimeWithinDay_def msPerDay_def)

lemma setDate_UTC:
  "setDate z t (getDate z t + k)
     = UTC z (MakeDate (Day (LocalTime z t) + k) (TimeWithinDay (LocalTime z t)))"
  by (simp add: setDate_def getDate_def Let_def MakeDay_current)

lemma setHours_UTC:
  "readOnItsDay z lt \<Longrightarrow>
     setHours z (UTC z lt) h m s ms = UTC z (MakeDate (Day lt) (MakeTime h m s ms))"
  by (simp add: setHours_def Let_def readOnItsDay_def)

lemma setDate_relative: "setDate (fixedZone tza) t (getDate (fixedZone tza) t + k) = t + k * msPerDay"
proof -
  let ?lt = "LocalTime (fixedZone tza) t"
  have "MakeDate (Day ?lt + k) (TimeWithinDay ?lt) = ?lt + k * msPerDay"
    using MakeDate_Day [of ?lt] by (simp add: MakeDate_def algebra_simps)
  then show ?thesis
    by (simp add: setDate_def getDate_def Let_def MakeDay_current UTC_fixedZone LocalTime_fixedZone)
qed

lemma MakeTime_range:
  "0 \<le> MakeTime 0 0 0 0 \<and> MakeTime 0 0 0 0 < msPerDay \<and>
   0 \<le> MakeTime 23 59 59 999 \<and> MakeTime 23 59 59 999 < msPerDay"
  by (simp add: MakeTime_def msPerDay_def)

lemma Day_local_setHours0 [simp]:
  "Day (LocalTime (fixedZone tza) (setHours (fixedZone tza) t 0 0 0 0)) = Day (LocalTime (fixedZone tza) t)"
  using MakeTime_range by (simp add: setHours_def Let_def Day_MakeDate)

lemma Day_local_setHours1 [simp]:
  "Day (LocalTime (fixedZone tza) (setHours (fixedZone tza) t 23 59 59 999)) = Day (LocalTime (fixedZone tza) t)"
  using MakeTime_range by (simp add: setHours_def Let_def Day_MakeDate)

lemma TimeWithinDay_setHours0 [simp]:
  "TimeWithinDay (LocalTime (fixedZone tza) (setHours (fixedZone tza) t 0 0 0 0)) = MakeTime 0 0 0 0"
  using MakeTime_range by (simp add: setHours_def Let_def TimeWithinDay_MakeDate)

lemma TimeWithinDay_setHours1 [simp]:
  "TimeWithinDay (LocalTime (fixedZone tza) (setHours (fixedZone tza) t 23 59 59 999)) = MakeTime 23 59 59 999"
  using MakeTime_range by (simp add: setHours_def Let_def TimeWithinDay_MakeDate)

lemma Day_local_shift [simp]:
  "Day (LocalTime (fixedZone tza) (t + k * msPerDay)) = Day (LocalTime (fixedZone tza) t) + k"
proof -
  have "(t + tza + k * msPerDay) div msPerDay = (t + tza) div msPerDay + k"
    by (simp add: msPerDay_def)
  then show ?thesis
    by (simp add: Day_def LocalTime_fixedZone algebra_simps)
qed


lemma Day_local_bounds:
  assumes "\<bar>tza\<bar> < msPerDay"
  shows "Day t - 1 \<le> Day (LocalTime (fixedZone tza) t) \<and> Day (LocalTime (fixedZone tza) t) \<le> Day t + 1"
proof -
  have "(t - msPerDay) div msPerDay \<le> (t + tza) div msPerDay"
    using assms by (intro zdiv_mono1) (simp_all add: msPerDay_def)
  moreover have "(t + tza) div msPerDay \<le> (t + msPerDay) div msPerDay"
    using assms by (intro zdiv_mono1) (simp_all add: msPerDay_def)
  moreover have "(t - msPerDay) div msPerDay = t div msPerDay - 1"
    using div_add_self2 [of msPerDay "t - msPerDay"] by (simp add: msPerDay_def)
  moreover have "(t + msPerDay) div msPerDay = t div msPerDay + 1"
    by (simp add: msPerDay_def)
  ultimately show ?thesis
    by (simp add: Day_def LocalTime_fixedZone)
qed


lemma start_of_day:
  "TimeWithinDay (LocalTime (fixedZone tza) t) = MakeTime 0 0 0 0 \<Longrightarrow> t = Day (LocalTime (fixedZone tza) t) * msPerDay - tza"
  using MakeDate_Day [of "LocalTime (fixedZone tza) t"]
  by (simp add: MakeDate_def MakeTime_def LocalTime_fixedZone)

lemma end_of_day:
  "TimeWithinDay (LocalTime (fixedZone tza) t) = MakeTime 23 59 59 999 \<Longrightarrow>
     t = Day (LocalTime (fixedZone tza) t) * msPerDay + (msPerDay - 1) - tza"
  using MakeDate_Day [of "LocalTime (fixedZone tza) t"]
  by (simp add: MakeDate_def MakeTime_def LocalTime_fixedZone msPerDay_def)



lemma getMonth_range: "0 \<le> getMonth z t \<and> getMonth z t \<le> 11"
  by (simp add: getMonth_def MonthFromTime_range)

lemma local_fields_of_MakeDay:
  assumes "0 \<le> m" "m \<le> 11" "1 \<le> d"
    "monthStart m (leapDays y) + d \<le> (if m = 11 then 365 + leapDays y else monthStart (m + 1) (leapDays y))"
    and "Day (LocalTime z t) = MakeDay y m d"
  shows "getFullYear z t = y \<and> getMonth z t = m \<and> getDate z t = d"
  unfolding getFullYear_def getMonth_def getDate_def
  using fields_of_MakeDay [OF assms] by simp


lemma year_after_epoch_zone:
  assumes "\<bar>z t True\<bar> < msPerDay" and "0 \<le> t"
  shows "1969 \<le> getFullYear z t"
proof (rule ccontr)
  let ?lt = "LocalTime z t"
  assume "\<not> 1969 \<le> getFullYear z t"
  then have "YearFromTime ?lt + 1 \<le> 1969"
    by (simp add: getFullYear_def)
  then have "DayFromYear (YearFromTime ?lt + 1) \<le> DayFromYear 1969"
    by (rule DayFromYear_mono)
  moreover have "DayFromYear 1969 = - 365"
    by (simp add: DayFromYear_def)
  moreover have "- 1 \<le> Day ?lt"
  proof -
    have "- msPerDay \<le> ?lt"
      using assms by (simp add: LocalTime_def)
    then have "(- msPerDay) div msPerDay \<le> ?lt div msPerDay"
      by (intro zdiv_mono1) (simp_all add: msPerDay_def)
    then show ?thesis
      by (simp add: Day_def msPerDay_def)
  qed
  ultimately show False
    using YearFromTime_bounds [of ?lt] by simp
qed

section \<open>Resolved date ranges\<close>

subsection \<open>The last full week\<close>

lemma lastSaturday_offset:
  fixes D :: int
  shows "D - (if (D + 4) mod 7 = 6 then 7 else (D + 4) mod 7 + 1) + 4
           = 6 + 7 * ((D + 4) div 7 - 1)"
proof -
  define q w where "q = (D + 4) div 7" and "w = (D + 4) mod 7"
  have "D + 4 = 7 * q + w"
    unfolding q_def w_def by simp
  then have "D - (if w = 6 then 7 else w + 1) + 4 = 6 + 7 * (q - 1)"
    by (cases "w = 6") simp_all
  then show ?thesis
    by (simp only: q_def w_def)
qed

lemma lastSaturday_weekday:
  fixes D :: int
  shows "(D - (if (D + 4) mod 7 = 6 then 7 else (D + 4) mod 7 + 1) + 4) mod 7 = 6"
  unfolding lastSaturday_offset by (simp only: mod_mult_self2) simp

lemma lastSunday_weekday:
  fixes D :: int
  shows "(D - (if (D + 4) mod 7 = 6 then 7 else (D + 4) mod 7 + 1) - 6 + 4) mod 7 = 0"
proof -
  have "D - (if (D + 4) mod 7 = 6 then 7 else (D + 4) mod 7 + 1) - 6 + 4
          = 0 + 7 * ((D + 4) div 7 - 1)"
    using lastSaturday_offset [of D] by simp
  then show ?thesis
    by (simp only: mod_mult_self2) simp
qed

lemma toLowerCase_week: "toLowerCase ''week'' = ''week''"
  by (simp add: toLowerCase_def toLowerChar_def)

lemma getLastWeekRange_days:
  fixes tza now :: int
  defines "D \<equiv> Day (LocalTime (fixedZone tza) now)"
  defines "back \<equiv> (if getDay (fixedZone tza) now = 6 then 7 else getDay (fixedZone tza) now + 1)"
  shows "Day (LocalTime (fixedZone tza) (end (getLastWeekRange (fixedZone tza) now))) = D - back"
    and "Day (LocalTime (fixedZone tza) (start (getLastWeekRange (fixedZone tza) now))) = D - back - 6"
proof -
  have sat: "setDate (fixedZone tza) now (getDate (fixedZone tza) now - back) = now + (- back) * msPerDay"
    using setDate_relative [of tza now "- back"] by simp
  show e: "Day (LocalTime (fixedZone tza) (end (getLastWeekRange (fixedZone tza) now))) = D - back"
    unfolding getLastWeekRange_def Let_def back_def [symmetric]
    by (simp add: sat D_def del: mult_minus_left)
  let ?sat = "setHours (fixedZone tza) (setDate (fixedZone tza) now (getDate (fixedZone tza) now - back)) 23 59 59 999"
  have sun: "setDate (fixedZone tza) ?sat (getDate (fixedZone tza) ?sat - 6) = ?sat + (- 6) * msPerDay"
    using setDate_relative [of tza ?sat "- 6"] by simp
  have "Day (LocalTime (fixedZone tza) ?sat) = D - back"
    by (simp add: sat D_def del: mult_minus_left)
  then show "Day (LocalTime (fixedZone tza) (start (getLastWeekRange (fixedZone tza) now))) = D - back - 6"
    unfolding getLastWeekRange_def Let_def back_def [symmetric]
    by (simp add: sun del: mult_minus_left) 
qed

lemma getThisWeekRange_start_day:
  "Day (LocalTime (fixedZone tza) (start (getThisWeekRange (fixedZone tza) now))) = Day (LocalTime (fixedZone tza) now) - getDay (fixedZone tza) now"
proof -
  have "setDate (fixedZone tza) now (getDate (fixedZone tza) now - getDay (fixedZone tza) now) = now + (- getDay (fixedZone tza) now) * msPerDay"
    using setDate_relative [of tza now "- getDay (fixedZone tza) now"] by simp
  then show ?thesis
    unfolding getThisWeekRange_def Let_def by (simp del: mult_minus_left)
qed

text \<open>
  In a zone without a clock change the range of \<open>getLastWeekRange\<close> runs from a Sunday
  at 00:00:00.000 to the Saturday six days later at 23:59:59.999, local time; it lasts seven
  days less one millisecond and ends one millisecond before the week of \<open>now\<close> starts.
\<close>

lemma getLastWeekRange_fixedZone:
  "(let r = getLastWeekRange (fixedZone tza) now in
      getDay (fixedZone tza) (start r) = 0 \<and>
      TimeWithinDay (LocalTime (fixedZone tza) (start r)) = MakeTime 0 0 0 0 \<and>
      getDay (fixedZone tza) (end r) = 6 \<and>
      TimeWithinDay (LocalTime (fixedZone tza) (end r)) = MakeTime 23 59 59 999 \<and>
      Day (LocalTime (fixedZone tza) (end r)) = Day (LocalTime (fixedZone tza) (start r)) + 6 \<and>
      end r - start r = 7 * msPerDay - 1 \<and>
      end r + 1 = start (getThisWeekRange (fixedZone tza) now) \<and>
      (getDay (fixedZone tza) now = 6 \<longrightarrow> Day (LocalTime (fixedZone tza) (end r)) = Day (LocalTime (fixedZone tza) now) - 7))"
proof -
  define r where "r = getLastWeekRange (fixedZone tza) now"
  define D where "D = Day (LocalTime (fixedZone tza) now)"
  define daysBack where "daysBack = (if getDay (fixedZone tza) now = 6 then 7 else getDay (fixedZone tza) now + 1)"
  have w: "getDay (fixedZone tza) now = (D + 4) mod 7"
    by (simp add: getDay_def WeekDay_def D_def)
  have de: "Day (LocalTime (fixedZone tza) (end r)) = D - daysBack"
    and ds: "Day (LocalTime (fixedZone tza) (start r)) = D - daysBack - 6"
    using getLastWeekRange_days [of tza now] by (simp_all add: r_def D_def daysBack_def)
  have ts: "TimeWithinDay (LocalTime (fixedZone tza) (start r)) = MakeTime 0 0 0 0"
    and te: "TimeWithinDay (LocalTime (fixedZone tza) (end r)) = MakeTime 23 59 59 999"
    by (simp_all add: r_def getLastWeekRange_def Let_def)
  have c1: "getDay (fixedZone tza) (start r) = 0"
  proof -
    have "getDay (fixedZone tza) (start r) = (D - daysBack - 6 + 4) mod 7"
      by (simp only: getDay_def WeekDay_def ds)
    also have "\<dots> = 0"
      unfolding daysBack_def w by (rule lastSunday_weekday)
    finally show ?thesis .
  qed
  have c3: "getDay (fixedZone tza) (end r) = 6"
  proof -
    have "getDay (fixedZone tza) (end r) = (D - daysBack + 4) mod 7"
      by (simp only: getDay_def WeekDay_def de)
    also have "\<dots> = 6"
      unfolding daysBack_def w by (rule lastSaturday_weekday)
    finally show ?thesis .
  qed
  have c5: "Day (LocalTime (fixedZone tza) (end r)) = Day (LocalTime (fixedZone tza) (start r)) + 6"
    by (simp add: de ds)
  have c6: "end r - start r = 7 * msPerDay - 1"
    using start_of_day [OF ts] end_of_day [OF te] by (simp add: de ds algebra_simps)
  have tw: "TimeWithinDay (LocalTime (fixedZone tza) (start (getThisWeekRange (fixedZone tza) now))) = MakeTime 0 0 0 0"
    by (simp add: getThisWeekRange_def Let_def)
  have wk: "D - daysBack + 1 = D - getDay (fixedZone tza) now"
  proof -
    have "0 \<le> (D + 4) mod 7" "(D + 4) mod 7 < 7" by simp_all
    moreover have "(D + 4) mod 7 = 6 \<Longrightarrow> D - 7 + 1 = D - (D + 4) mod 7" by simp
    ultimately show ?thesis by (simp add: daysBack_def w)
  qed
  have c7: "end r + 1 = start (getThisWeekRange (fixedZone tza) now)"
  proof -
    have "end r + 1 = (D - daysBack + 1) * msPerDay - tza"
      using end_of_day [OF te] by (simp add: de algebra_simps)
    also have "\<dots> = (D - getDay (fixedZone tza) now) * msPerDay - tza"
      by (simp only: wk)
    also have "\<dots> = start (getThisWeekRange (fixedZone tza) now)"
      using start_of_day [OF tw] by (simp add: getThisWeekRange_start_day D_def)
    finally show ?thesis .
  qed
  have c8: "getDay (fixedZone tza) now = 6 \<longrightarrow> Day (LocalTime (fixedZone tza) (end r)) = Day (LocalTime (fixedZone tza) now) - 7"
    by (simp add: de daysBack_def D_def)
  show ?thesis
    unfolding Let_def r_def [symmetric] using c1 ts c3 te c5 c6 c7 c8 by blast
qed

text \<open>
  In any zone, the four local times that \<open>getLastWeekRange\<close> sets are: the time of day
  of \<open>now\<close> on the last Saturday (\<open>setDate\<close>), 23:59:59.999 on that Saturday
  (\<open>setHours\<close>), 23:59:59.999 on the Sunday six days before (\<open>setDate\<close>) and
  00:00:00.000 on that Sunday (\<open>setHours\<close>). When the second and the fourth exist and
  the first and the third are read on their day, the range starts at the fourth and ends
  at the second.
\<close>

lemma getLastWeekRange_local:
  fixes z :: zone and now :: time
  defines "sat \<equiv> Day (LocalTime z now) - (if getDay z now = 6 then 7 else getDay z now + 1)"
  assumes a: "readOnItsDay z (MakeDate sat (TimeWithinDay (LocalTime z now)))"
    and b: "existsLocalTime z (MakeDate sat (MakeTime 23 59 59 999))"
    and c: "readOnItsDay z (MakeDate (sat - 6) (MakeTime 23 59 59 999))"
    and d: "existsLocalTime z (MakeDate (sat - 6) (MakeTime 0 0 0 0))"
  shows "LocalTime z (end (getLastWeekRange z now)) = MakeDate sat (MakeTime 23 59 59 999)"
    and "LocalTime z (start (getLastWeekRange z now)) = MakeDate (sat - 6) (MakeTime 0 0 0 0)"
proof -
  define daysBack where "daysBack = (if getDay z now = 6 then 7 else getDay z now + 1)"
  define lastSaturday where
    "lastSaturday = setHours z (setDate z now (getDate z now - daysBack)) 23 59 59 999"
  define lastSunday where
    "lastSunday = setHours z (setDate z lastSaturday (getDate z lastSaturday - 6)) 0 0 0 0"
  have r: "getLastWeekRange z now = \<lparr>start = lastSunday, end = lastSaturday\<rparr>"
    by (simp add: getLastWeekRange_def Let_def lastSunday_def lastSaturday_def daysBack_def)
  have sat: "sat = Day (LocalTime z now) + (- daysBack)"
    by (simp add: sat_def daysBack_def)
  have "setDate z now (getDate z now + (- daysBack))
          = UTC z (MakeDate sat (TimeWithinDay (LocalTime z now)))"
    unfolding sat by (rule setDate_UTC)
  then have "lastSaturday
          = UTC z (MakeDate (Day (MakeDate sat (TimeWithinDay (LocalTime z now))))
                     (MakeTime 23 59 59 999))"
    unfolding lastSaturday_def using setHours_UTC [OF a] by simp
  then have ls: "lastSaturday = UTC z (MakeDate sat (MakeTime 23 59 59 999))"
    using TimeWithinDay_range [of "LocalTime z now"] by (simp add: Day_MakeDate)
  then have lls: "LocalTime z lastSaturday = MakeDate sat (MakeTime 23 59 59 999)"
    using b by (simp add: existsLocalTime_def)
  have "setDate z lastSaturday (getDate z lastSaturday + (- 6))
          = UTC z (MakeDate (sat + (- 6)) (MakeTime 23 59 59 999))"
    unfolding setDate_UTC lls using MakeTime_range
    by (simp add: Day_MakeDate TimeWithinDay_MakeDate)
  then have "lastSunday
          = UTC z (MakeDate (Day (MakeDate (sat - 6) (MakeTime 23 59 59 999))) (MakeTime 0 0 0 0))"
    unfolding lastSunday_def using setHours_UTC [OF c] by simp
  then have "lastSunday = UTC z (MakeDate (sat - 6) (MakeTime 0 0 0 0))"
    using MakeTime_range by (simp add: Day_MakeDate)
  then have lsu: "LocalTime z lastSunday = MakeDate (sat - 6) (MakeTime 0 0 0 0)"
    using d by (simp add: existsLocalTime_def)
  show "LocalTime z (end (getLastWeekRange z now)) = MakeDate sat (MakeTime 23 59 59 999)"
    by (simp add: r lls)
  show "LocalTime z (start (getLastWeekRange z now)) = MakeDate (sat - 6) (MakeTime 0 0 0 0)"
    by (simp add: r lsu)
qed

text \<open>
  Claim C5 as stated fails in a zone with clock changes.
  \<^item> In \<open>newYork\<close>, for \<open>now\<close> = 2026-03-18T12:00Z, the range runs from Sunday
    2026-03-08 00:00:00.000 to Saturday 2026-03-14 23:59:59.999 local time; the clock
    moves forward by an hour within it, and the range lasts seven days less an hour and a
    millisecond.
  \<^item> In \<open>santiago\<close>, for \<open>now\<close> = 2026-09-13T12:00Z, the Sunday of the start has no
    00:00:00.000: the range starts on Sunday 2026-09-06 at 01:00:00.000 local time.
  \<^item> In \<open>nuuk\<close>, for \<open>now\<close> = 2026-04-03T12:00Z, the Saturday of the end has no
    23:59:59.999: it is read as Sunday 2026-03-29 00:59:59.999, and the range runs from
    Monday 2026-03-23 00:00:00.000 to that Sunday.
\<close>

theorem getDateRange_week_clock_change:
  "getDateRange newYork (\<lambda>s. None) 1773835200000 (Some ''week'') None None
     = Inr \<lparr>start = 1772946000000, end = 1773547199999\<rparr> \<and>
   1773547199999 - 1772946000000 = 7 * msPerDay - 1 - 3600000 \<and>
   getDateRange santiago (\<lambda>s. None) 1789300800000 (Some ''week'') None None
     = Inr \<lparr>start = 1788667200000, end = 1789268399999\<rparr> \<and>
   getDay santiago 1788667200000 = 0 \<and>
   TimeWithinDay (LocalTime santiago 1788667200000) = MakeTime 1 0 0 0 \<and>
   getDateRange nuuk (\<lambda>s. None) 1775217600000 (Some ''week'') None None
     = Inr \<lparr>start = 1774231200000, end = 1774749599999\<rparr> \<and>
   getDay nuuk 1774231200000 = 1 \<and>
   getDay nuuk 1774749599999 = 0 \<and>
   TimeWithinDay (LocalTime nuuk 1774749599999) = MakeTime 0 59 59 999"
  by code_simp

text \<open>
  Claim C5, amended. Let the last Saturday be the local day of \<open>now\<close> moved back by
  \<open>daysToLastSaturday\<close> days (7 when \<open>now\<close> is on a Saturday, the weekday plus 1
  otherwise). For every clock reading \<open>now\<close> and every zone in which 23:59:59.999 on
  the last Saturday and 00:00:00.000 on the Sunday six days before it exist, and in which
  the two local times set on the way (the time of day of \<open>now\<close> on that Saturday,
  23:59:59.999 on that Sunday) are read on their day, the period \<open>week\<close> resolves to a
  range that starts on a Sunday at 00:00:00.000 local time and ends on the Saturday six
  days later at 23:59:59.999 local time: seven days less one millisecond by the local clock.
  The end is on the day before the Sunday that opens the week of \<open>now\<close>, so the range
  touches the boundary of the current week and never reaches into it. When \<open>now\<close>
  falls on a Saturday the range ends seven days back, on the Saturday of the week before.
\<close>

theorem getDateRange_week:
  fixes z :: zone and now :: time
  defines "sat \<equiv> Day (LocalTime z now) - (if getDay z now = 6 then 7 else getDay z now + 1)"
  assumes "readOnItsDay z (MakeDate sat (TimeWithinDay (LocalTime z now)))"
    and "existsLocalTime z (MakeDate sat (MakeTime 23 59 59 999))"
    and "readOnItsDay z (MakeDate (sat - 6) (MakeTime 23 59 59 999))"
    and "existsLocalTime z (MakeDate (sat - 6) (MakeTime 0 0 0 0))"
  shows "\<exists>r. getDateRange z legacy now (Some ''week'') None None = Inr r
           \<and> getDay z (start r) = 0
           \<and> TimeWithinDay (LocalTime z (start r)) = MakeTime 0 0 0 0
           \<and> getDay z (end r) = 6
           \<and> TimeWithinDay (LocalTime z (end r)) = MakeTime 23 59 59 999
           \<and> Day (LocalTime z (end r)) = Day (LocalTime z (start r)) + 6
           \<and> LocalTime z (end r) - LocalTime z (start r) = 7 * msPerDay - 1
           \<and> Day (LocalTime z (end r)) + 1 = Day (LocalTime z now) - getDay z now
           \<and> (getDay z now = 6 \<longrightarrow> Day (LocalTime z (end r)) = Day (LocalTime z now) - 7)"
proof -
  define r where "r = getLastWeekRange z now"
  define D where "D = Day (LocalTime z now)"
  define daysBack where "daysBack = (if getDay z now = 6 then 7 else getDay z now + 1)"
  have res: "getDateRange z legacy now (Some ''week'') None None = Inr r"
    by (simp add: getDateRange_def truthy_def toLowerCase_week r_def)
  have sat: "sat = D - daysBack"
    by (simp add: sat_def D_def daysBack_def)
  have w: "getDay z now = (D + 4) mod 7"
    by (simp add: getDay_def WeekDay_def D_def)
  have le: "LocalTime z (end r) = MakeDate (D - daysBack) (MakeTime 23 59 59 999)"
    and ls: "LocalTime z (start r) = MakeDate (D - daysBack - 6) (MakeTime 0 0 0 0)"
    using getLastWeekRange_local [of z now] assms(2-5)
    by (simp_all add: r_def sat sat_def [symmetric])
  have de: "Day (LocalTime z (end r)) = D - daysBack"
    and ds: "Day (LocalTime z (start r)) = D - daysBack - 6"
    and ts: "TimeWithinDay (LocalTime z (start r)) = MakeTime 0 0 0 0"
    and te: "TimeWithinDay (LocalTime z (end r)) = MakeTime 23 59 59 999"
    unfolding le ls using MakeTime_range by (simp_all add: Day_MakeDate TimeWithinDay_MakeDate)
  have c1: "getDay z (start r) = 0"
  proof -
    have "getDay z (start r) = (D - daysBack - 6 + 4) mod 7"
      by (simp only: getDay_def WeekDay_def ds)
    also have "\<dots> = 0"
      unfolding daysBack_def w by (rule lastSunday_weekday)
    finally show ?thesis .
  qed
  have c3: "getDay z (end r) = 6"
  proof -
    have "getDay z (end r) = (D - daysBack + 4) mod 7"
      by (simp only: getDay_def WeekDay_def de)
    also have "\<dots> = 6"
      unfolding daysBack_def w by (rule lastSaturday_weekday)
    finally show ?thesis .
  qed
  have c5: "Day (LocalTime z (end r)) = Day (LocalTime z (start r)) + 6"
    by (simp add: de ds)
  have c6: "LocalTime z (end r) - LocalTime z (start r) = 7 * msPerDay - 1"
    unfolding le ls by (simp add: MakeDate_def MakeTime_def msPerDay_def algebra_simps)
  have c7: "Day (LocalTime z (end r)) + 1 = Day (LocalTime z now) - getDay z now"
  proof -
    have "0 \<le> (D + 4) mod 7" "(D + 4) mod 7 < 7" by simp_all
    moreover have "(D + 4) mod 7 = 6 \<Longrightarrow> D - 7 + 1 = D - (D + 4) mod 7" by simp
    ultimately have "D - daysBack + 1 = D - getDay z now"
      by (simp add: daysBack_def w)
    then show ?thesis
      by (simp add: de D_def)
  qed
  have c8: "getDay z now = 6 \<longrightarrow> Day (LocalTime z (end r)) = Day (LocalTime z now) - 7"
    by (simp add: de daysBack_def D_def)
  show ?thesis
    using res c1 ts c3 te c5 c6 c7 c8 by blast
qed


theorem getDateRange_week_witness:
  "getDay newYork 1774094400000 = 6 \<and>
   (\<exists>r. getDateRange newYork (\<lambda>s. None) 1774094400000 (Some ''week'') None None = Inr r
        \<and> getDay newYork (start r) = 0
        \<and> TimeWithinDay (LocalTime newYork (start r)) = MakeTime 0 0 0 0
        \<and> getDay newYork (end r) = 6
        \<and> TimeWithinDay (LocalTime newYork (end r)) = MakeTime 23 59 59 999
        \<and> LocalTime newYork (end r) - LocalTime newYork (start r) = 7 * msPerDay - 1
        \<and> Day (LocalTime newYork (end r)) = Day (LocalTime newYork 1774094400000) - 7)"
proof -
  let ?sat = "Day (LocalTime newYork 1774094400000)
     - (if getDay newYork 1774094400000 = 6 then 7 else getDay newYork 1774094400000 + 1)"
  have h1: "readOnItsDay newYork (MakeDate ?sat (TimeWithinDay (LocalTime newYork 1774094400000)))"
    by code_simp
  have h2: "existsLocalTime newYork (MakeDate ?sat (MakeTime 23 59 59 999))"
    by code_simp
  have h3: "readOnItsDay newYork (MakeDate (?sat - 6) (MakeTime 23 59 59 999))"
    by code_simp
  have h4: "existsLocalTime newYork (MakeDate (?sat - 6) (MakeTime 0 0 0 0))"
    by code_simp
  have s: "getDay newYork 1774094400000 = 6"
    by code_simp
  from getDateRange_week [where z = newYork and now = 1774094400000 and legacy = "\<lambda>s. None",
      OF h1 h2 h3 h4] s
  show ?thesis
    by blast
qed

subsection \<open>Every range is ordered\<close>








lemma getDateRange_default:
  assumes "\<not> (truthy fromDate \<and> truthy toDate)"
    and "map_option toLowerCase period
           \<notin> Some ` {''thisweek'', ''month'', ''thismonth'', ''quarter'', ''year'', ''thisyear''}"
  shows "getDateRange z legacy today period fromDate toDate = Inr (getLastWeekRange z today)"
  using assms(2) unfolding getDateRange_def Let_def if_not_P [OF assms(1)] by auto




subsection \<open>The last quarter at the start of a year\<close>

lemma toLowerCase_quarter: "toLowerCase ''quarter'' = ''quarter''"
  by (simp add: toLowerCase_def toLowerChar_def)

lemma MakeDay_last_of_December: "MakeDay Y (9 + 3) 0 = MakeDay Y 11 31"
proof -
  have "MakeDay Y (0 + 12) 0 = MakeDay (Y + 1) 0 0"
    by (rule MakeDay_year_shift)
  also have "\<dots> = DayFromYear (Y + 1) - 1"
    by (simp add: MakeDay_in_year monthStart_def)
  also have "\<dots> = MakeDay Y 11 31"
    by (simp add: MakeDay_in_year monthStart_def DayFromYear_Suc DaysInYear_leapDays)
  finally show ?thesis
    by simp
qed

text \<open>
  Claim C6 as stated fails in a zone whose clock skips the midnight that opens October 1.
  In \<open>asuncion\<close>, for \<open>now\<close> = 2024-02-15T12:00Z (local month February), the range
  of the period \<open>quarter\<close> starts on October 1, 2023 at 01:00:00.000 local time.
\<close>

theorem getDateRange_quarter_skipped_midnight:
  "getMonth asuncion 1707998400000 = 1 \<and>
   getFullYear asuncion 1707998400000 = 2024 \<and>
   getDateRange asuncion (\<lambda>s. None) 1707998400000 (Some ''quarter'') None None
     = Inr \<lparr>start = 1696132800000, end = 1704077999999\<rparr> \<and>
   getFullYear asuncion 1696132800000 = 2023 \<and>
   getMonth asuncion 1696132800000 = 9 \<and>
   getDate asuncion 1696132800000 = 1 \<and>
   TimeWithinDay (LocalTime asuncion 1696132800000) = MakeTime 1 0 0 0"
  by code_simp

text \<open>
  Claim C6, amended. For every clock reading \<open>now\<close> (a number of milliseconds elapsed
  since the epoch) whose local month is January, February or March (month index 0, 1 or 2),
  and every zone in which October 1 at 00:00:00.000 and December 31 at 23:59:59.999 of the
  calendar year before that of \<open>now\<close> exist and December 31 at 00:00:00.000 of that
  year is read on its day, the period \<open>quarter\<close> resolves to the range from that
  October 1 at 00:00:00.000 to that December 31 at 23:59:59.999, all in local time. The
  start month \<open>(currentQuarter - 1) * 3 = -3\<close> computed first is replaced before any
  date is built from it. The offset of the zone at \<open>now\<close> is less than a day.
\<close>

theorem getDateRange_quarter_rollover:
  fixes z :: zone and now :: nat
  defines "Y \<equiv> getFullYear z (int now) - 1"
  assumes "\<bar>z (int now) True\<bar> < msPerDay" and "getMonth z (int now) \<le> 2"
    and "existsLocalTime z (MakeDate (MakeDay Y 9 1) (MakeTime 0 0 0 0))"
    and "readOnItsDay z (MakeDate (MakeDay Y 11 31) (MakeTime 0 0 0 0))"
    and "existsLocalTime z (MakeDate (MakeDay Y 11 31) (MakeTime 23 59 59 999))"
  shows "\<exists>r. getDateRange z legacy (int now) (Some ''quarter'') None None = Inr r
           \<and> getFullYear z (start r) = getFullYear z (int now) - 1
           \<and> getMonth z (start r) = 9
           \<and> getDate z (start r) = 1
           \<and> TimeWithinDay (LocalTime z (start r)) = MakeTime 0 0 0 0
           \<and> getFullYear z (end r) = getFullYear z (int now) - 1
           \<and> getMonth z (end r) = 11
           \<and> getDate z (end r) = 31
           \<and> TimeWithinDay (LocalTime z (end r)) = MakeTime 23 59 59 999"
proof -
  define r where "r = getLastQuarterRange z (int now)"
  have res: "getDateRange z legacy (int now) (Some ''quarter'') None None = Inr r"
    by (simp add: getDateRange_def truthy_def toLowerCase_quarter r_def)
  have q0: "getMonth z (int now) div 3 = 0"
    using assms(3) getMonth_range [of z "int now"] by simp
  have Y: "(if 0 \<le> Y \<and> Y \<le> 99 then 1900 + Y else Y) = Y"
    using year_after_epoch_zone [of z "int now"] assms(2) by (simp add: Y_def)
  have "start r = setHours z (newDate z Y 9 1) 0 0 0 0"
    by (simp add: r_def getLastQuarterRange_def Let_def q0 Y_def)
  also have "\<dots> = setHours z (UTC z (MakeDate (MakeDay Y 9 1) (MakeTime 0 0 0 0))) 0 0 0 0"
    by (simp add: newDate_def Let_def Y)
  also have "\<dots> = UTC z (MakeDate (Day (MakeDate (MakeDay Y 9 1) (MakeTime 0 0 0 0)))
                           (MakeTime 0 0 0 0))"
    by (rule setHours_UTC [OF existsLocalTime_readOnItsDay [OF assms(4)]])
  also have "\<dots> = UTC z (MakeDate (MakeDay Y 9 1) (MakeTime 0 0 0 0))"
    using MakeTime_range by (simp add: Day_MakeDate)
  finally have ls: "LocalTime z (start r) = MakeDate (MakeDay Y 9 1) (MakeTime 0 0 0 0)"
    using assms(4) by (simp add: existsLocalTime_def)
  have "end r = setHours z (newDate z Y (9 + 3) 0) 23 59 59 999"
    by (simp add: r_def getLastQuarterRange_def Let_def q0 Y_def)
  also have "\<dots> = setHours z (UTC z (MakeDate (MakeDay Y 11 31) (MakeTime 0 0 0 0))) 23 59 59 999"
    by (simp only: newDate_def Let_def Y MakeDay_last_of_December)
  also have "\<dots> = UTC z (MakeDate (Day (MakeDate (MakeDay Y 11 31) (MakeTime 0 0 0 0)))
                           (MakeTime 23 59 59 999))"
    by (rule setHours_UTC [OF assms(5)])
  also have "\<dots> = UTC z (MakeDate (MakeDay Y 11 31) (MakeTime 23 59 59 999))"
    using MakeTime_range by (simp add: Day_MakeDate)
  finally have le: "LocalTime z (end r) = MakeDate (MakeDay Y 11 31) (MakeTime 23 59 59 999)"
    using assms(6) by (simp add: existsLocalTime_def)
  have ds: "Day (LocalTime z (start r)) = MakeDay Y 9 1"
    and de: "Day (LocalTime z (end r)) = MakeDay Y 11 31"
    and ts: "TimeWithinDay (LocalTime z (start r)) = MakeTime 0 0 0 0"
    and te: "TimeWithinDay (LocalTime z (end r)) = MakeTime 23 59 59 999"
    unfolding ls le using MakeTime_range by (simp_all add: Day_MakeDate TimeWithinDay_MakeDate)
  have fs: "getFullYear z (start r) = Y \<and> getMonth z (start r) = 9 \<and> getDate z (start r) = 1"
    using ds by (intro local_fields_of_MakeDay) (simp_all add: monthStart_def)
  have fe: "getFullYear z (end r) = Y \<and> getMonth z (end r) = 11 \<and> getDate z (end r) = 31"
    using de by (intro local_fields_of_MakeDay) (simp_all add: monthStart_def)
  show ?thesis
    using res fs fe ts te unfolding Y_def by blast
qed

theorem getDateRange_quarter_rollover_witness:
  "getMonth newYork (int 1771156800000) \<le> 2 \<and>
   (\<exists>r. getDateRange newYork (\<lambda>s. None) (int 1771156800000) (Some ''quarter'') None None = Inr r
        \<and> getFullYear newYork (start r) = getFullYear newYork (int 1771156800000) - 1
        \<and> getMonth newYork (start r) = 9
        \<and> getDate newYork (start r) = 1
        \<and> TimeWithinDay (LocalTime newYork (start r)) = MakeTime 0 0 0 0
        \<and> getMonth newYork (end r) = 11
        \<and> getDate newYork (end r) = 31
        \<and> TimeWithinDay (LocalTime newYork (end r)) = MakeTime 23 59 59 999)"
proof -
  let ?Y = "getFullYear newYork (int 1771156800000) - 1"
  have "\<bar>newYork 1771156800000 True\<bar> < msPerDay"
    by code_simp
  then have h1: "\<bar>newYork (int 1771156800000) True\<bar> < msPerDay"
    by simp
  have "getMonth newYork 1771156800000 \<le> 2"
    by code_simp
  then have h2: "getMonth newYork (int 1771156800000) \<le> 2"
    by simp
  have "existsLocalTime newYork
      (MakeDate (MakeDay (getFullYear newYork 1771156800000 - 1) 9 1) (MakeTime 0 0 0 0))"
    by code_simp
  then have h3: "existsLocalTime newYork (MakeDate (MakeDay ?Y 9 1) (MakeTime 0 0 0 0))"
    by simp
  have "readOnItsDay newYork
      (MakeDate (MakeDay (getFullYear newYork 1771156800000 - 1) 11 31) (MakeTime 0 0 0 0))"
    by code_simp
  then have h4: "readOnItsDay newYork (MakeDate (MakeDay ?Y 11 31) (MakeTime 0 0 0 0))"
    by simp
  have "existsLocalTime newYork
      (MakeDate (MakeDay (getFullYear newYork 1771156800000 - 1) 11 31) (MakeTime 23 59 59 999))"
    by code_simp
  then have h5: "existsLocalTime newYork (MakeDate (MakeDay ?Y 11 31) (MakeTime 23 59 59 999))"
    by simp
  from getDateRange_quarter_rollover [where z = newYork and now = 1771156800000
      and legacy = "\<lambda>s. None", OF h1 h2 h3 h4 h5] h2
  show ?thesis
    by blast
qed

subsection \<open>Explicit ranges\<close>

lemma getCustomRange_invalid:
  "Date_parse legacy fromDate = None \<or> Date_parse legacy toDate = None \<Longrightarrow>
     getCustomRange z legacy fromDate toDate = Inl InvalidDateError"
  by (auto simp: getCustomRange_def Let_def split: option.splits)

lemma getCustomRange_valid:
  assumes "Date_parse legacy fromDate = Some f" and "Date_parse legacy toDate = Some t"
  shows "getCustomRange z legacy fromDate toDate =
     (if setHours z f 0 0 0 0 > setHours z t 23 59 59 999 then Inl InvertedRangeError
      else Inr \<lparr>start = setHours z f 0 0 0 0, end = setHours z t 23 59 59 999\<rparr>)"
  using assms by (simp add: getCustomRange_def Let_def)

lemma Date_parse_2026_01_01: "Date_parse legacy ''2026-01-01'' = Some 1767225600000"
  by (simp add: Date_parse_def parseIsoDate_def isDigit_def toNumber_def digitValue_def
      MakeDate_def MakeDay_def MakeTime_def DayFromYear_def monthStart_def leapDays_def
      InLeapYear_def msPerDay_def)

lemma Date_parse_2026_01_31: "Date_parse legacy ''2026-01-31'' = Some 1769817600000"
  by (simp add: Date_parse_def parseIsoDate_def isDigit_def toNumber_def digitValue_def
      MakeDate_def MakeDay_def MakeTime_def DayFromYear_def monthStart_def leapDays_def
      InLeapYear_def msPerDay_def)

lemma Date_parse_2026_02_01: "Date_parse legacy ''2026-02-01'' = Some 1769904000000"
  by (simp add: Date_parse_def parseIsoDate_def isDigit_def toNumber_def digitValue_def
      MakeDate_def MakeDay_def MakeTime_def DayFromYear_def monthStart_def leapDays_def
      InLeapYear_def msPerDay_def)

lemma Date_parse_2026_13_01: "Date_parse legacy ''2026-13-01'' = None"
  by (simp add: Date_parse_def parseIsoDate_def isDigit_def toNumber_def digitValue_def)

lemma getCustomRange_2026_13_01:
  "getCustomRange z legacy ''2026-13-01'' toDate = Inl InvalidDateError"
  by (rule getCustomRange_invalid) (simp add: Date_parse_2026_13_01)

lemma getCustomRange_2026_02_01_2026_01_01:
  assumes "\<bar>tza\<bar> < msPerDay"
  shows "getCustomRange (fixedZone tza) legacy ''2026-02-01'' ''2026-01-01'' = Inl InvertedRangeError"
proof -
  let ?f = "1769904000000 :: int" and ?t = "1767225600000 :: int"
  have "Day ?f = 20485" "Day ?t = 20454"
    by (simp_all add: Day_def msPerDay_def)
  then have "Day (LocalTime (fixedZone tza) ?t) < Day (LocalTime (fixedZone tza) ?f)"
    using Day_local_bounds [OF assms, of ?f] Day_local_bounds [OF assms, of ?t] by simp
  then have "(Day (LocalTime (fixedZone tza) ?t) + 1) * msPerDay \<le> Day (LocalTime (fixedZone tza) ?f) * msPerDay"
    by (simp add: msPerDay_def)
  then have "setHours (fixedZone tza) ?t 23 59 59 999 < setHours (fixedZone tza) ?f 0 0 0 0"
    by (simp add: setHours_def Let_def MakeDate_def MakeTime_def UTC_fixedZone msPerDay_def algebra_simps)
  then show ?thesis
    by (simp add: getCustomRange_valid [OF Date_parse_2026_02_01 Date_parse_2026_01_01])
qed

text \<open>
  In a zone at or east of Greenwich an explicit range is what claim C3 says: for strings
  \<open>YYYY-MM-DD\<close> that name days of the calendar, a range that is returned runs from the
  from-date at 00:00:00.000 to the to-date at 23:59:59.999, local time.
\<close>

lemma getCustomRange_east_of_Greenwich:
  assumes tza: "0 \<le> tza" "tza < msPerDay"
    and f: "parseIsoDate fromDate = Some (y1, m1, d1)" "1 \<le> m1" "m1 \<le> 12" "1 \<le> d1"
      "monthStart (m1 - 1) (leapDays y1) + d1
         \<le> (if m1 - 1 = 11 then 365 + leapDays y1 else monthStart (m1 - 1 + 1) (leapDays y1))"
    and t: "parseIsoDate toDate = Some (y2, m2, d2)" "1 \<le> m2" "m2 \<le> 12" "1 \<le> d2"
      "monthStart (m2 - 1) (leapDays y2) + d2
         \<le> (if m2 - 1 = 11 then 365 + leapDays y2 else monthStart (m2 - 1 + 1) (leapDays y2))"
    and r: "getCustomRange (fixedZone tza) legacy fromDate toDate = Inr r"
  shows "getFullYear (fixedZone tza) (start r) = y1 \<and> getMonth (fixedZone tza) (start r) = m1 - 1 \<and> getDate (fixedZone tza) (start r) = d1
       \<and> TimeWithinDay (LocalTime (fixedZone tza) (start r)) = MakeTime 0 0 0 0
       \<and> getFullYear (fixedZone tza) (end r) = y2 \<and> getMonth (fixedZone tza) (end r) = m2 - 1 \<and> getDate (fixedZone tza) (end r) = d2
       \<and> TimeWithinDay (LocalTime (fixedZone tza) (end r)) = MakeTime 23 59 59 999"
proof -
  have day: "Day (LocalTime (fixedZone tza) (MakeDate D (MakeTime 0 0 0 0))) = D" for D
  proof -
    have "(tza + D * msPerDay) div msPerDay = D + tza div msPerDay"
      by (simp add: msPerDay_def)
    moreover have "tza div msPerDay = 0"
      using tza by (simp add: div_pos_pos_trivial)
    ultimately show ?thesis
      by (simp add: Day_def LocalTime_fixedZone MakeDate_def MakeTime_def algebra_simps)
  qed
  have d1: "d1 \<le> 31"
    using f(5) monthStart_length [of "m1 - 1" "leapDays y1"] f(2,3) leapDays_range [of y1]
    by simp
  have d2: "d2 \<le> 31"
    using t(5) monthStart_length [of "m2 - 1" "leapDays y2"] t(2,3) leapDays_range [of y2]
    by simp
  have pf: "Date_parse legacy fromDate = Some (MakeDate (MakeDay y1 (m1 - 1) d1) (MakeTime 0 0 0 0))"
    using f d1 by (simp add: Date_parse_def)
  have pt: "Date_parse legacy toDate = Some (MakeDate (MakeDay y2 (m2 - 1) d2) (MakeTime 0 0 0 0))"
    using t d2 by (simp add: Date_parse_def)
  from r have s: "start r = setHours (fixedZone tza) (MakeDate (MakeDay y1 (m1 - 1) d1) (MakeTime 0 0 0 0)) 0 0 0 0"
    and e: "end r = setHours (fixedZone tza) (MakeDate (MakeDay y2 (m2 - 1) d2) (MakeTime 0 0 0 0)) 23 59 59 999"
    unfolding getCustomRange_valid [OF pf pt] by (auto split: if_splits)
  have ds: "Day (LocalTime (fixedZone tza) (start r)) = MakeDay y1 (m1 - 1) d1"
    unfolding s by (simp only: Day_local_setHours0 day)
  have de: "Day (LocalTime (fixedZone tza) (end r)) = MakeDay y2 (m2 - 1) d2"
    unfolding e by (simp only: Day_local_setHours1 day)
  have fs: "getFullYear (fixedZone tza) (start r) = y1 \<and> getMonth (fixedZone tza) (start r) = m1 - 1 \<and> getDate (fixedZone tza) (start r) = d1"
    using f(2,3,4) by (intro local_fields_of_MakeDay [OF _ _ _ f(5) ds]) simp_all
  have fe: "getFullYear (fixedZone tza) (end r) = y2 \<and> getMonth (fixedZone tza) (end r) = m2 - 1 \<and> getDate (fixedZone tza) (end r) = d2"
    using t(2,3,4) by (intro local_fields_of_MakeDay [OF _ _ _ t(5) de]) simp_all
  have ts: "TimeWithinDay (LocalTime (fixedZone tza) (start r)) = MakeTime 0 0 0 0"
    unfolding s by simp
  have te: "TimeWithinDay (LocalTime (fixedZone tza) (end r)) = MakeTime 23 59 59 999"
    unfolding e by simp
  show ?thesis
    using fs fe ts te by blast
qed

text \<open>
  Claim C3 at a zone west of Greenwich (UTC-05:00 without a clock change, \<open>fixedZone (- 18000000)\<close>). The strings
  \<open>2026-01-01\<close> and \<open>2026-01-31\<close> are read as midnight UTC, which is 19:00 of the day
  before in local time; \<open>setHours\<close> then moves within that local day. The range returned
  runs from 2025-12-31 at 00:00:00.000 to 2026-01-30 at 23:59:59.999 local time, not from
  the from-date to the to-date.
\<close>

theorem getCustomRange_west_of_Greenwich:
  "getCustomRange (fixedZone (- 18000000)) legacy ''2026-01-01'' ''2026-01-31''
     = Inr \<lparr>start = 1767157200000, end = 1769835599999\<rparr> \<and>
   getFullYear (fixedZone (- 18000000)) 1767157200000 = 2025 \<and>
   getMonth (fixedZone (- 18000000)) 1767157200000 = 11 \<and>
   getDate (fixedZone (- 18000000)) 1767157200000 = 31 \<and>
   TimeWithinDay (LocalTime (fixedZone (- 18000000)) 1767157200000) = MakeTime 0 0 0 0 \<and>
   getFullYear (fixedZone (- 18000000)) 1769835599999 = 2026 \<and>
   getMonth (fixedZone (- 18000000)) 1769835599999 = 0 \<and>
   getDate (fixedZone (- 18000000)) 1769835599999 = 30 \<and>
   TimeWithinDay (LocalTime (fixedZone (- 18000000)) 1769835599999) = MakeTime 23 59 59 999"
proof -
  have s: "setHours (fixedZone (- 18000000)) 1767225600000 0 0 0 0 = 1767157200000"
    and e: "setHours (fixedZone (- 18000000)) 1769817600000 23 59 59 999 = 1769835599999"
    by code_simp+
  have r: "getCustomRange (fixedZone (- 18000000)) legacy ''2026-01-01'' ''2026-01-31''
     = Inr \<lparr>start = 1767157200000, end = 1769835599999\<rparr>"
    by (simp add: getCustomRange_valid [OF Date_parse_2026_01_01 Date_parse_2026_01_31] s e)
  have f: "getFullYear (fixedZone (- 18000000)) 1767157200000 = 2025 \<and>
   getMonth (fixedZone (- 18000000)) 1767157200000 = 11 \<and>
   getDate (fixedZone (- 18000000)) 1767157200000 = 31 \<and>
   TimeWithinDay (LocalTime (fixedZone (- 18000000)) 1767157200000) = MakeTime 0 0 0 0 \<and>
   getFullYear (fixedZone (- 18000000)) 1769835599999 = 2026 \<and>
   getMonth (fixedZone (- 18000000)) 1769835599999 = 0 \<and>
   getDate (fixedZone (- 18000000)) 1769835599999 = 30 \<and>
   TimeWithinDay (LocalTime (fixedZone (- 18000000)) 1769835599999) = MakeTime 23 59 59 999"
    by code_simp
  show ?thesis
    using r f by (rule conjI)
qed

subsection \<open>The dates given to the log command\<close>

lemma formatDateForGit_west_of_Greenwich:
  "getDate (fixedZone (- 18000000)) 1769835599999 = 30 \<and> formatDateForGit 1769835599999 = ''2026-01-31''"
  by code_simp

text \<open>
  Claim C2 at a zone east of Greenwich (UTC+01:00 without a clock change, \<open>fixedZone 3600000\<close>), for the period
  \<open>month\<close> resolved on 2026-02-15 at 12:00 UTC. The range starts on 2026-01-01 at
  00:00:00.000 local time, which \<open>formatDateForFilename\<close> prints from the local fields as
  \<open>Jan-01-2026\<close>; \<open>formatDateForGit\<close> prints the UTC date of the same instant,
  \<open>2025-12-31\<close>, and that is the date the log command is given after \<open>--since\<close>.
\<close>

theorem formatDateForGit_east_of_Greenwich:
  "getDateRange (fixedZone 3600000) legacy 1771156800000 (Some ''month'') None None
     = Inr \<lparr>start = 1767222000000, end = 1769900399999\<rparr> \<and>
   getFullYear (fixedZone 3600000) 1767222000000 = 2026 \<and>
   getMonth (fixedZone 3600000) 1767222000000 = 0 \<and>
   getDate (fixedZone 3600000) 1767222000000 = 1 \<and>
   formatDateForFilename (fixedZone 3600000) 1767222000000 = ''Jan-01-2026'' \<and>
   formatDateForGit 1767222000000 = ''2025-12-31'' \<and>
   gitLogCommand ''main'' 1767222000000 1769900399999 None
     = ''git log main --since='' @ dq @ ''2025-12-31'' @ dq
       @ '' --until='' @ dq @ ''2026-01-31 23:59:59'' @ dq
       @ ''  --format='' @ dq @ ''%H|||%s|||%an|||%ad'' @ dq
       @ '' --date=format:'' @ dq @ ''%Y-%m-%d %H:%M'' @ dq"
proof -
  have m: "toLowerCase ''month'' = ''month''"
    by (simp add: toLowerCase_def toLowerChar_def)
  have "getLastMonthRange (fixedZone 3600000) 1771156800000 = \<lparr>start = 1767222000000, end = 1769900399999\<rparr>"
    by code_simp
  then have r: "getDateRange (fixedZone 3600000) legacy 1771156800000 (Some ''month'') None None
     = Inr \<lparr>start = 1767222000000, end = 1769900399999\<rparr>"
    by (simp add: getDateRange_def truthy_def m)
  have f: "getFullYear (fixedZone 3600000) 1767222000000 = 2026 \<and>
   getMonth (fixedZone 3600000) 1767222000000 = 0 \<and>
   getDate (fixedZone 3600000) 1767222000000 = 1 \<and>
   formatDateForFilename (fixedZone 3600000) 1767222000000 = ''Jan-01-2026'' \<and>
   formatDateForGit 1767222000000 = ''2025-12-31'' \<and>
   gitLogCommand ''main'' 1767222000000 1769900399999 None
     = ''git log main --since='' @ dq @ ''2025-12-31'' @ dq
       @ '' --until='' @ dq @ ''2026-01-31 23:59:59'' @ dq
       @ ''  --format='' @ dq @ ''%H|||%s|||%an|||%ad'' @ dq
       @ '' --date=format:'' @ dq @ ''%Y-%m-%d %H:%M'' @ dq"
    by code_simp
  show ?thesis
    using r f by (rule conjI)
qed

section \<open>Aggregation of commits\<close>

subsection \<open>The building blocks\<close>

lemma uniqueInOrder_fold:
  "distinct acc \<Longrightarrow>
     distinct (fold (\<lambda>x seen. if x \<in> set seen then seen else seen @ [x]) xs acc) \<and>
     set (fold (\<lambda>x seen. if x \<in> set seen then seen else seen @ [x]) xs acc) = set acc \<union> set xs"
  by (induction xs arbitrary: acc) auto

lemma distinct_uniqueInOrder: "distinct (uniqueInOrder xs)"
  using uniqueInOrder_fold [of "[]" xs] by (simp add: uniqueInOrder_def)

lemma set_uniqueInOrder: "set (uniqueInOrder xs) = set xs"
  using uniqueInOrder_fold [of "[]" xs] by (simp add: uniqueInOrder_def)

lemma fst_filterUnique_Cons:
  "fst (filterUnique seen (c # cs)) =
     (if fullHash c \<in> seen then fst (filterUnique seen cs)
      else c # fst (filterUnique (insert (fullHash c) seen) cs))"
  by (simp split: prod.splits)

lemma snd_filterUnique_Cons:
  "snd (filterUnique seen (c # cs)) =
     (if fullHash c \<in> seen then snd (filterUnique seen cs)
      else snd (filterUnique (insert (fullHash c) seen) cs))"
  by (simp split: prod.splits)

lemma filterUnique_seen: "snd (filterUnique seen cs) = seen \<union> fullHash ` set cs"
proof (induction cs arbitrary: seen)
  case Nil
  then show ?case by simp
next
  case (Cons c cs)
  then show ?case
    by (auto simp: snd_filterUnique_Cons simp del: filterUnique.simps)
qed

lemma filterUnique_kept_subset: "set (fst (filterUnique seen cs)) \<subseteq> set cs"
proof (induction cs arbitrary: seen)
  case Nil
  then show ?case by simp
next
  case (Cons c cs)
  then show ?case
    by (auto simp: fst_filterUnique_Cons simp del: filterUnique.simps)
qed

lemma filterUnique_kept_ids:
  "fullHash ` set (fst (filterUnique seen cs)) = fullHash ` set cs - seen"
proof (induction cs arbitrary: seen)
  case Nil
  then show ?case by simp
next
  case (Cons c cs)
  then show ?case
    by (auto simp: fst_filterUnique_Cons simp del: filterUnique.simps)
qed

lemma filterUnique_kept_distinct: "distinct (map fullHash (fst (filterUnique seen cs)))"
proof (induction cs arbitrary: seen)
  case Nil
  then show ?case by simp
next
  case (Cons c cs)
  have "fullHash c \<notin> fullHash ` set (fst (filterUnique (insert (fullHash c) seen) cs))"
    by (simp add: filterUnique_kept_ids)
  then show ?case
    using Cons.IH by (simp add: fst_filterUnique_Cons del: filterUnique.simps)
qed

lemma filterUnique_length:
  "length (fst (filterUnique seen cs)) = card (fullHash ` set cs - seen)"
proof -
  have "length (fst (filterUnique seen cs)) = length (map fullHash (fst (filterUnique seen cs)))"
    by simp
  also have "\<dots> = card (set (map fullHash (fst (filterUnique seen cs))))"
    using filterUnique_kept_distinct [of seen cs] by (simp only: distinct_card)
  also have "\<dots> = card (fullHash ` set cs - seen)"
    by (simp add: filterUnique_kept_ids)
  finally show ?thesis .
qed

lemma setProperty_values:
  "set (Object_values (setProperty obj key v)) \<subseteq> insert v (set (Object_values obj))"
  by (auto simp: setProperty_def Object_values_def split: if_splits)

lemma setProperty_keys:
  "set (Object_keys (setProperty obj key v)) \<subseteq> insert key (set (Object_keys obj))"
  by (auto simp: setProperty_def Object_keys_def split: if_splits)

lemma setProperty_fresh:
  "key \<noteq> ''__proto__'' \<Longrightarrow> key \<notin> set (Object_keys obj) \<Longrightarrow>
     setProperty obj key v = obj @ [(key, v)]"
  by (simp add: setProperty_def Object_keys_def)

lemma setProperty_other:
  "k \<noteq> key \<Longrightarrow> (k, v) \<in> set (setProperty obj key w) \<longleftrightarrow> (k, v) \<in> set obj"
proof -
  assume ne: "k \<noteq> key"
  have "(k, v) \<in> set (map (\<lambda>(k', w'). if k' = key then (k', w) else (k', w')) obj)
      \<longleftrightarrow> (k, v) \<in> set obj"
    using ne by (induction obj) (auto split: if_splits)
  then show ?thesis
    using ne by (simp add: setProperty_def)
qed

lemma branchStep_values:
  "[] \<notin> set (Object_values obj) \<Longrightarrow>
     [] \<notin> set (Object_values (fst (branchStep exec s e a b (obj, seen))))"
  using setProperty_values [of obj b "fst (filterUnique seen (getCommitsForBranch exec b s e a))"]
  by (auto simp: branchStep_def Let_def split: prod.splits)

lemma branchStep_keys:
  "set (Object_keys (fst (branchStep exec s e a b (obj, seen)))) \<subseteq> insert b (set (Object_keys obj))"
  using setProperty_keys [of obj b "fst (filterUnique seen (getCommitsForBranch exec b s e a))"]
  by (auto simp: branchStep_def Let_def split: prod.splits)

lemma branchStep_seen:
  "snd (branchStep exec s e a b (obj, seen))
     = seen \<union> fullHash ` set (getCommitsForBranch exec b s e a)"
  using filterUnique_seen [of seen "getCommitsForBranch exec b s e a"]
  by (auto simp: branchStep_def Let_def split: prod.splits)

lemma branchStep_other:
  "k \<noteq> b \<Longrightarrow> (k, v) \<in> set (fst (branchStep exec s e a b (obj, seen))) \<longleftrightarrow> (k, v) \<in> set obj"
  by (auto simp: branchStep_def Let_def setProperty_other split: prod.splits)

subsection \<open>The loop over the branches\<close>

lemma seenFrom_Nil [simp]: "seenFrom exec s e a [] = {}"
  by (simp add: seenFrom_def)

lemma seenFrom_Cons:
  "seenFrom exec s e a (b # bs)
     = fullHash ` set (getCommitsForBranch exec b s e a) \<union> seenFrom exec s e a bs"
  by (simp add: seenFrom_def)

lemma finite_seenFrom: "finite (seenFrom exec s e a bs)"
  by (simp add: seenFrom_def)

lemma fold_branchStep_values:
  "[] \<notin> set (Object_values (fst st)) \<Longrightarrow>
     [] \<notin> set (Object_values (fst (fold (branchStep exec s e a) bs st)))"
proof (induction bs arbitrary: st)
  case Nil
  then show ?case by simp
next
  case (Cons b bs)
  obtain obj seen where st: "st = (obj, seen)"
    by (cases st)
  have "[] \<notin> set (Object_values (fst (branchStep exec s e a b st)))"
    using Cons.prems unfolding st by (intro branchStep_values) simp
  then show ?case
    using Cons.IH [of "branchStep exec s e a b st"] by simp
qed

lemma fold_branchStep_keys:
  "set (Object_keys (fst (fold (branchStep exec s e a) bs st)))
     \<subseteq> set (Object_keys (fst st)) \<union> set bs"
proof (induction bs arbitrary: st)
  case Nil
  then show ?case by simp
next
  case (Cons b bs)
  obtain obj seen where st: "st = (obj, seen)"
    by (cases st)
  have "set (Object_keys (fst (branchStep exec s e a b st))) \<subseteq> insert b (set (Object_keys (fst st)))"
    unfolding st using branchStep_keys [of exec s e a b obj seen] by simp
  then show ?case
    using Cons.IH [of "branchStep exec s e a b st"] by auto
qed

lemma fold_branchStep_seen:
  "snd (fold (branchStep exec s e a) bs (obj, seen)) = seen \<union> seenFrom exec s e a bs"
proof (induction bs arbitrary: obj seen)
  case Nil
  then show ?case by simp
next
  case (Cons b bs)
  obtain obj' seen' where st: "branchStep exec s e a b (obj, seen) = (obj', seen')"
    by (cases "branchStep exec s e a b (obj, seen)")
  have "seen' = seen \<union> fullHash ` set (getCommitsForBranch exec b s e a)"
    using branchStep_seen [of exec s e a b obj seen] st by simp
  then show ?case
    using Cons.IH [of obj' seen'] st by (simp add: seenFrom_Cons Un_assoc)
qed

lemma fold_branchStep_other:
  "k \<notin> set bs \<Longrightarrow>
     (k, v) \<in> set (fst (fold (branchStep exec s e a) bs st)) \<longleftrightarrow> (k, v) \<in> set (fst st)"
proof (induction bs arbitrary: st)
  case Nil
  then show ?case by simp
next
  case (Cons b bs)
  obtain obj seen where st: "st = (obj, seen)"
    by (cases st)
  have "(k, v) \<in> set (fst (branchStep exec s e a b st)) \<longleftrightarrow> (k, v) \<in> set (fst st)"
    unfolding st using Cons.prems by (simp add: branchStep_other)
  then show ?case
    using Cons.IH [of "branchStep exec s e a b st"] Cons.prems by simp
qed

text \<open>
  What the loop leaves for one branch \<open>b\<close>, visited after the branches \<open>pre\<close> and before
  the branches \<open>post\<close>: its commits whose full hash no earlier branch returned (one per
  hash), if there is any and the branch is not called \<open>__proto__\<close>; no property otherwise.
\<close>

lemma fold_branchStep_entry:
  fixes exec :: "string \<Rightarrow> string option" and s e :: time and a :: "string option"
    and pre post :: "string list" and b :: string
  assumes d: "distinct (pre @ b # post)"
  defines "u \<equiv> fst (filterUnique (seenFrom exec s e a pre) (getCommitsForBranch exec b s e a))"
  defines "R \<equiv> fst (fold (branchStep exec s e a) (pre @ b # post) ([], {}))"
  shows "(b, v) \<in> set R \<longleftrightarrow> v = u \<and> u \<noteq> [] \<and> b \<noteq> ''__proto__''"
proof -
  obtain obj1 seen1 where st1: "fold (branchStep exec s e a) pre ([], {}) = (obj1, seen1)"
    by (cases "fold (branchStep exec s e a) pre ([], {})")
  have seen1: "seen1 = seenFrom exec s e a pre"
    using fold_branchStep_seen [of exec s e a pre "[]" "{}"] st1 by simp
  have "set (Object_keys obj1) \<subseteq> set pre"
    using fold_branchStep_keys [of exec s e a pre "([], {})"] st1 by (simp add: Object_keys_def)
  then have fresh: "b \<notin> set (Object_keys obj1)"
    using d by auto
  then have nob: "(b, v) \<notin> set obj1"
    by (force simp: Object_keys_def)
  have step: "(b, v) \<in> set (fst (branchStep exec s e a b (obj1, seen1)))
      \<longleftrightarrow> v = u \<and> u \<noteq> [] \<and> b \<noteq> ''__proto__''"
  proof (cases "b = ''__proto__''")
    case True
    then show ?thesis
      using nob by (simp add: branchStep_def Let_def setProperty_def split: prod.splits)
  next
    case False
    then show ?thesis
      using nob fresh
      by (auto simp: branchStep_def Let_def setProperty_fresh seen1 u_def split: prod.splits)
  qed
  have "R = fst (fold (branchStep exec s e a) post (branchStep exec s e a b (obj1, seen1)))"
    by (simp add: R_def st1)
  moreover have "b \<notin> set post"
    using d by simp
  ultimately have "(b, v) \<in> set R \<longleftrightarrow> (b, v) \<in> set (fst (branchStep exec s e a b (obj1, seen1)))"
    by (simp add: fold_branchStep_other)
  then show ?thesis
    using step by simp
qed

lemma getCommitsByBranch_entry:
  assumes "uniqueInOrder (getAllBranches exec) = pre @ b # post"
  shows "(b, v) \<in> set (getCommitsByBranch exec s e a) \<longleftrightarrow>
           v = fst (filterUnique (seenFrom exec s e a pre) (getCommitsForBranch exec b s e a))
           \<and> v \<noteq> [] \<and> b \<noteq> ''__proto__''"
proof -
  have "distinct (pre @ b # post)"
    using distinct_uniqueInOrder [of "getAllBranches exec"] assms by simp
  from fold_branchStep_entry [OF this, of v exec s e a] show ?thesis
    unfolding getCommitsByBranch_def Let_def assms by auto
qed

lemma getCommitsByBranch_keys:
  "set (Object_keys (getCommitsByBranch exec s e a)) \<subseteq> set (getAllBranches exec)"
  using fold_branchStep_keys [of exec s e a "uniqueInOrder (getAllBranches exec)" "([], {})"]
  by (simp add: getCommitsByBranch_def Let_def set_uniqueInOrder Object_keys_def)

subsection \<open>Empty lists and failing branches\<close>

text \<open>
  Claim C7. The mapping returned by the aggregation never binds a key to an empty list,
  and a branch whose commits all carry full hashes already returned for the branches
  visited before it (so that nothing is left of its list once the seen ones are removed)
  is no key of the mapping at all.
\<close>

theorem getCommitsByBranch_omits_empty:
  "[] \<notin> set (Object_values (getCommitsByBranch exec s e a)) \<and>
   (\<forall>pre b post.
      uniqueInOrder (getAllBranches exec) = pre @ b # post \<and>
      fst (filterUnique (seenFrom exec s e a pre) (getCommitsForBranch exec b s e a)) = []
      \<longrightarrow> b \<notin> set (Object_keys (getCommitsByBranch exec s e a)))"
proof (intro conjI allI impI)
  show "[] \<notin> set (Object_values (getCommitsByBranch exec s e a))"
    unfolding getCommitsByBranch_def Let_def
    by (rule fold_branchStep_values) (simp add: Object_values_def)
next
  fix pre b post
  assume h: "uniqueInOrder (getAllBranches exec) = pre @ b # post \<and>
      fst (filterUnique (seenFrom exec s e a pre) (getCommitsForBranch exec b s e a)) = []"
  then have "(b, v) \<notin> set (getCommitsByBranch exec s e a)" for v
    using getCommitsByBranch_entry [of exec pre b post v s e a] by auto
  then show "b \<notin> set (Object_keys (getCommitsByBranch exec s e a))"
    by (auto simp: Object_keys_def)
qed

theorem getCommitsByBranch_omits_empty_witness:
  "uniqueInOrder (getAllBranches mergedRepo) = [''main''] @ ''feature'' # [] \<and>
   fst (filterUnique (seenFrom mergedRepo 0 0 None [''main''])
          (getCommitsForBranch mergedRepo ''feature'' 0 0 None)) = [] \<and>
   ''feature'' \<notin> set (Object_keys (getCommitsByBranch mergedRepo 0 0 None))"
proof -
  have a: "uniqueInOrder (getAllBranches mergedRepo) = [''main''] @ ''feature'' # []"
    by code_simp
  have b: "fst (filterUnique (seenFrom mergedRepo 0 0 None [''main''])
          (getCommitsForBranch mergedRepo ''feature'' 0 0 None)) = []"
    by code_simp
  from getCommitsByBranch_omits_empty [of mergedRepo 0 0 None] a b show ?thesis
    by blast
qed

lemma gitLogCommand_not_gitBranchCommand: "gitLogCommand b s e a \<noteq> gitBranchCommand"
  by (simp add: gitLogCommand_def gitBranchCommand_def Let_def)

lemma getCommitsForBranch_failed:
  "exec (gitLogCommand b s e a) = None \<Longrightarrow> getCommitsForBranch exec b s e a = []"
  by (simp add: getCommitsForBranch_def)

lemma split_empty: "split [] sep = [[]]"
  by (simp add: split_def splitFrom.simps)

lemma getCommitsForBranch_empty_output:
  "exec (gitLogCommand b s e a) = Some [] \<Longrightarrow> getCommitsForBranch exec b s e a = []"
  by (simp add: getCommitsForBranch_def split_empty trim_def)

text \<open>
  Claim C8. When the log of a branch \<open>b\<close> fails, the aggregation returns what it returns
  when that log prints nothing: the branch counts as one without commits, the other
  branches are processed as usual, and \<open>b\<close> is no key of the result. The aggregation is
  a total function: no failure of a log reaches its caller.
\<close>

theorem getCommitsByBranch_failed_branch:
  assumes "exec (gitLogCommand b s e a) = None"
  shows "getCommitsByBranch exec s e a
           = getCommitsByBranch (exec(gitLogCommand b s e a := Some [])) s e a
         \<and> b \<notin> set (Object_keys (getCommitsByBranch exec s e a))"
proof
  let ?exec' = "exec(gitLogCommand b s e a := Some [])"
  have br: "getAllBranches ?exec' = getAllBranches exec"
    using gitLogCommand_not_gitBranchCommand [of b s e a]
    by (simp add: getAllBranches_def)
  have "getCommitsForBranch ?exec' b' s e a = getCommitsForBranch exec b' s e a" for b'
  proof (cases "gitLogCommand b' s e a = gitLogCommand b s e a")
    case True
    then have "getCommitsForBranch ?exec' b' s e a = []"
      by (intro getCommitsForBranch_empty_output) simp
    moreover have "getCommitsForBranch exec b' s e a = []"
      using True assms by (intro getCommitsForBranch_failed) simp
    ultimately show ?thesis by simp
  next
    case False
    then show ?thesis
      by (simp add: getCommitsForBranch_def)
  qed
  then have "branchStep ?exec' s e a = branchStep exec s e a"
    by (intro ext) (simp add: branchStep_def)
  then show "getCommitsByBranch exec s e a = getCommitsByBranch ?exec' s e a"
    by (simp add: getCommitsByBranch_def br)
  show "b \<notin> set (Object_keys (getCommitsByBranch exec s e a))"
  proof (cases "b \<in> set (uniqueInOrder (getAllBranches exec))")
    case True
    then obtain pre post where "uniqueInOrder (getAllBranches exec) = pre @ b # post"
      by (auto simp: in_set_conv_decomp)
    then have "(b, v) \<notin> set (getCommitsByBranch exec s e a)" for v
      using getCommitsByBranch_entry [of exec pre b post v s e a]
        getCommitsForBranch_failed [of exec b s e a, OF assms] by auto
    then show ?thesis
      by (auto simp: Object_keys_def)
  next
    case False
    then show ?thesis
      using getCommitsByBranch_keys [of exec s e a] by (auto simp: set_uniqueInOrder)
  qed
qed

theorem getCommitsByBranch_failed_branch_witness:
  "brokenRepo (gitLogCommand ''gone'' 0 0 None) = None \<and>
   getCommitsByBranch brokenRepo 0 0 None
     = getCommitsByBranch (brokenRepo(gitLogCommand ''gone'' 0 0 None := Some [])) 0 0 None \<and>
   ''gone'' \<notin> set (Object_keys (getCommitsByBranch brokenRepo 0 0 None)) \<and>
   Object_keys (getCommitsByBranch brokenRepo 0 0 None) = [''main'']"
proof -
  have a: "brokenRepo (gitLogCommand ''gone'' 0 0 None) = None"
    by code_simp
  have b: "Object_keys (getCommitsByBranch brokenRepo 0 0 None) = [''main'']"
    by code_simp
  from getCommitsByBranch_failed_branch [of brokenRepo "''gone''" 0 0 None, OF a] a b show ?thesis
    by simp
qed

subsection \<open>First seen wins\<close>

lemma totalCommits_append [simp]:
  "totalCommits (obj @ [(k, v)]) = totalCommits obj + length v"
  by (simp add: totalCommits_def Object_values_def)

lemma fold_branchStep_total:
  assumes "distinct bs" and "''__proto__'' \<notin> set bs"
    and "set (Object_keys obj) \<inter> set bs = {}" and "finite seen"
  shows "totalCommits (fst (fold (branchStep exec s e a) bs (obj, seen)))
           = totalCommits obj + card (seenFrom exec s e a bs - seen)"
  using assms
proof (induction bs arbitrary: obj seen)
  case Nil
  then show ?case by simp
next
  case (Cons b bs)
  let ?cs = "getCommitsForBranch exec b s e a"
  let ?u = "fst (filterUnique seen ?cs)"
  let ?obj' = "if length ?u > 0 then setProperty obj b ?u else obj"
  let ?seen' = "seen \<union> fullHash ` set ?cs"
  have step: "branchStep exec s e a b (obj, seen) = (?obj', ?seen')"
    using filterUnique_seen [of seen ?cs]
    by (auto simp: branchStep_def Let_def split: prod.splits)
  have fresh: "b \<noteq> ''__proto__''" "b \<notin> set (Object_keys obj)"
    using Cons.prems by auto
  have obj': "?obj' = (if ?u = [] then obj else obj @ [(b, ?u)])"
    using fresh by (simp add: setProperty_fresh)
  have t1: "totalCommits ?obj' = totalCommits obj + card (fullHash ` set ?cs - seen)"
    unfolding obj' by (simp add: filterUnique_length [symmetric])
  have keys: "set (Object_keys ?obj') \<inter> set bs = {}"
    unfolding obj' using Cons.prems by (auto simp: Object_keys_def)
  have "totalCommits (fst (fold (branchStep exec s e a) bs (?obj', ?seen')))
      = totalCommits ?obj' + card (seenFrom exec s e a bs - ?seen')"
    using Cons.prems keys by (intro Cons.IH) simp_all
  moreover have "card (fullHash ` set ?cs - seen) + card (seenFrom exec s e a bs - ?seen')
      = card (seenFrom exec s e a (b # bs) - seen)"
  proof -
    have "seenFrom exec s e a (b # bs) - seen
        = (fullHash ` set ?cs - seen) \<union> (seenFrom exec s e a bs - ?seen')"
      by (auto simp: seenFrom_Cons)
    moreover have "(fullHash ` set ?cs - seen) \<inter> (seenFrom exec s e a bs - ?seen') = {}"
      by auto
    moreover have "finite (fullHash ` set ?cs - seen)" "finite (seenFrom exec s e a bs - ?seen')"
      by (simp_all add: finite_seenFrom)
    ultimately show ?thesis
      by (simp add: card_Un_disjoint)
  qed
  ultimately show ?case
    using t1 by (simp add: step)
qed

text \<open>
  When no branch is called \<open>__proto__\<close>, the total the reports print is the number of
  distinct full hashes the log returns over all branches.
\<close>

lemma getCommitsByBranch_total:
  assumes "''__proto__'' \<notin> set (getAllBranches exec)"
  shows "totalCommits (getCommitsByBranch exec s e a)
           = card (seenFrom exec s e a (uniqueInOrder (getAllBranches exec)))"
proof -
  have "totalCommits (fst (fold (branchStep exec s e a) (uniqueInOrder (getAllBranches exec)) ([], {})))
      = totalCommits [] + card (seenFrom exec s e a (uniqueInOrder (getAllBranches exec)) - {})"
    using assms
    by (intro fold_branchStep_total) (simp_all add: distinct_uniqueInOrder set_uniqueInOrder Object_keys_def)
  then show ?thesis
    by (simp add: getCommitsByBranch_def Let_def totalCommits_def Object_values_def)
qed

lemma two_positions:
  assumes "xs @ b # ys = xs' @ k # ys'" and "k \<noteq> b"
  shows "k \<in> set xs \<or> b \<in> set xs'"
proof -
  from assms(1) obtain us where
    "(xs = xs' @ us \<and> us @ b # ys = k # ys') \<or> (xs @ us = xs' \<and> b # ys = us @ k # ys')"
    by (auto simp: append_eq_append_conv2)
  then show ?thesis
  proof
    assume h: "xs = xs' @ us \<and> us @ b # ys = k # ys'"
    then show ?thesis
      using assms(2) by (cases us) auto
  next
    assume h: "xs @ us = xs' \<and> b # ys = us @ k # ys'"
    then show ?thesis
      using assms(2) by (cases us) auto
  qed
qed

text \<open>
  When the branch \<open>b\<close> is not called \<open>__proto__\<close> and is the first in the order of the
  loop whose log returns the full hash \<open>h\<close>, the result lists a commit with that hash
  under \<open>b\<close> and under no other key.
\<close>

lemma getCommitsByBranch_first_seen:
  assumes bs: "uniqueInOrder (getAllBranches exec) = pre @ b # post"
    and b: "b \<noteq> ''__proto__''"
    and h: "h \<in> fullHash ` set (getCommitsForBranch exec b s e a)"
      "h \<notin> seenFrom exec s e a pre"
  shows "(\<exists>v. (b, v) \<in> set (getCommitsByBranch exec s e a) \<and> h \<in> fullHash ` set v)
       \<and> (\<forall>k v. (k, v) \<in> set (getCommitsByBranch exec s e a) \<and> h \<in> fullHash ` set v \<longrightarrow> k = b)"
proof (intro conjI allI impI)
  let ?u = "fst (filterUnique (seenFrom exec s e a pre) (getCommitsForBranch exec b s e a))"
  have hu: "h \<in> fullHash ` set ?u"
    using h by (simp add: filterUnique_kept_ids)
  then have "?u \<noteq> []"
    by auto
  then have "(b, ?u) \<in> set (getCommitsByBranch exec s e a)"
    using getCommitsByBranch_entry [OF bs, of ?u s e a] b by simp
  then show "\<exists>v. (b, v) \<in> set (getCommitsByBranch exec s e a) \<and> h \<in> fullHash ` set v"
    using hu by blast
next
  fix k v
  assume kv: "(k, v) \<in> set (getCommitsByBranch exec s e a) \<and> h \<in> fullHash ` set v"
  show "k = b"
  proof (rule ccontr)
    assume ne: "k \<noteq> b"
    have "k \<in> set (Object_keys (getCommitsByBranch exec s e a))"
      using kv by (force simp: Object_keys_def)
    then have "k \<in> set (uniqueInOrder (getAllBranches exec))"
      using getCommitsByBranch_keys [of exec s e a] by (auto simp: set_uniqueInOrder)
    then obtain pre' post' where bs': "uniqueInOrder (getAllBranches exec) = pre' @ k # post'"
      by (auto simp: in_set_conv_decomp)
    have v: "v = fst (filterUnique (seenFrom exec s e a pre') (getCommitsForBranch exec k s e a))"
      using getCommitsByBranch_entry [OF bs', of v s e a] kv by simp
    then have hv: "h \<in> fullHash ` set (getCommitsForBranch exec k s e a)"
      "h \<notin> seenFrom exec s e a pre'"
      using kv by (simp_all add: filterUnique_kept_ids)
    from two_positions [of pre b post pre' k post'] bs bs' ne
    have "k \<in> set pre \<or> b \<in> set pre'"
      by simp
    then show False
    proof
      assume "k \<in> set pre"
      then have "h \<in> seenFrom exec s e a pre"
        using hv(1) by (auto simp: seenFrom_def)
      with h(2) show False by simp
    next
      assume "b \<in> set pre'"
      then have "h \<in> seenFrom exec s e a pre'"
        using h(1) by (auto simp: seenFrom_def)
      with hv(2) show False by simp
    qed
  qed
qed

text \<open>
  Claim C1 at a repository with a branch called \<open>__proto__\<close>. The log returns three
  distinct full hashes over the two branches; the commit of \<open>__proto__\<close> is recorded as
  seen, the assignment \<open>commitsByBranch['__proto__'] = uniqueCommits\<close> adds no property,
  and the result holds two commits: the third is attributed to no branch.
\<close>

theorem getCommitsByBranch_proto_branch:
  "uniqueInOrder (getAllBranches protoRepo) = [''main'', ''__proto__''] \<and>
   card (seenFrom protoRepo 0 0 None (uniqueInOrder (getAllBranches protoRepo))) = 3 \<and>
   map fullHash (getCommitsForBranch protoRepo ''__proto__'' 0 0 None)
     = [''c3c3c3c3c3c3c3c3c3c3c3c3c3c3c3c3c3c3c3c3''] \<and>
   Object_keys (getCommitsByBranch protoRepo 0 0 None) = [''main''] \<and>
   totalCommits (getCommitsByBranch protoRepo 0 0 None) = 2"
  by code_simp

section \<open>Enumeration of branches\<close>

subsection \<open>The listing, line by line\<close>

lemma startsWith_newline: "startsWith (c # s) newline \<longleftrightarrow> c = CHR 0x0A"
  by (simp add: startsWith_def newline_def)

lemma newline_not_Nil [simp]: "newline \<noteq> []"
  by (simp add: newline_def)

lemma splitFrom_last: "CHR 0x0A \<notin> set l \<Longrightarrow> splitFrom newline cur l = [cur @ l]"
proof (induction l arbitrary: cur)
  case Nil
  then show ?case by (simp add: splitFrom.simps)
next
  case (Cons c l)
  then show ?case
    by (subst splitFrom.simps) (auto simp: startsWith_newline)
qed

lemma splitFrom_line:
  "CHR 0x0A \<notin> set l \<Longrightarrow>
     splitFrom newline cur (l @ newline @ rest) = (cur @ l) # splitFrom newline [] rest"
proof (induction l arbitrary: cur)
  case Nil
  show ?case
    by (subst splitFrom.simps) (simp add: startsWith_def newline_def)
next
  case (Cons c l)
  then show ?case
    by (subst splitFrom.simps) (auto simp: startsWith_newline)
qed

lemma split_joinLines:
  "\<forall>l\<in>set refs. CHR 0x0A \<notin> set l \<Longrightarrow> split (joinLines refs) newline = refs @ [[]]"
proof (induction refs)
  case Nil
  then show ?case
    by (simp add: split_def joinLines_def splitFrom.simps)
next
  case (Cons l refs)
  have "splitFrom newline [] (l @ newline @ joinLines refs) = l # splitFrom newline [] (joinLines refs)"
    using Cons.prems splitFrom_line [of l "[]" "joinLines refs"] by simp
  then show ?case
    using Cons by (simp add: split_def joinLines_def)
qed

lemma trim_Nil [simp]: "trim [] = []"
  by (simp add: trim_def)

lemma getAllBranches_lines:
  assumes "exec gitBranchCommand = Some (joinLines refs)"
    and "\<forall>l\<in>set refs. CHR 0x0A \<notin> set l"
  shows "getAllBranches exec =
     map (\<lambda>branch. replace (trim branch) ''origin/'' '''')
       (filter (\<lambda>branch. \<not> includesStr branch ''stash'' \<and> \<not> startsWith branch ''tag:'')
         (filter (\<lambda>branch. trim branch \<noteq> []) refs))"
  by (simp add: getAllBranches_def assms(1) split_joinLines [OF assms(2)])

lemma getCommitsByBranch_cong:
  assumes "getAllBranches exec' = getAllBranches exec"
    and "\<And>cmd. cmd \<noteq> gitBranchCommand \<Longrightarrow> exec' cmd = exec cmd"
  shows "getCommitsByBranch exec' s e a = getCommitsByBranch exec s e a"
proof -
  have "getCommitsForBranch exec' b s e a = getCommitsForBranch exec b s e a" for b
    using assms(2) [OF gitLogCommand_not_gitBranchCommand [of b s e a]]
    by (simp add: getCommitsForBranch_def)
  then have "branchStep exec' s e a = branchStep exec s e a"
    by (intro ext) (simp add: branchStep_def)
  then show ?thesis
    by (simp add: getCommitsByBranch_def assms(1))
qed

subsection \<open>Stash and tag refs\<close>

lemma filter_kept_twice:
  "filter (\<lambda>x. \<not> A x \<and> \<not> B x) (filter N (filter (\<lambda>x. \<not> (A x \<or> B x)) xs))
     = filter (\<lambda>x. \<not> A x \<and> \<not> B x) (filter N xs)"
  by (induction xs) simp_all

lemma getAllBranches_without_excluded:
  assumes "exec gitBranchCommand = Some (joinLines refs)"
    and "\<forall>l\<in>set refs. CHR 0x0A \<notin> set l"
  shows "getAllBranches (exec(gitBranchCommand := Some (joinLines (filter (\<lambda>l. \<not> excludedRef l) refs))))
           = getAllBranches exec"
proof -
  let ?kept = "filter (\<lambda>l. \<not> excludedRef l) refs"
  let ?exec' = "exec(gitBranchCommand := Some (joinLines ?kept))"
  have kept: "\<forall>l\<in>set ?kept. CHR 0x0A \<notin> set l"
    using assms(2) by simp
  have e': "?exec' gitBranchCommand = Some (joinLines ?kept)"
    by simp
  show ?thesis
    unfolding getAllBranches_lines [of exec refs, OF assms]
      getAllBranches_lines [of ?exec' ?kept, OF e' kept]
    unfolding excludedRef_def
    by (simp only: filter_kept_twice)
qed

lemma getAllBranches_origin:
  assumes "exec gitBranchCommand = Some (joinLines refs)"
    and "\<forall>l\<in>set refs. CHR 0x0A \<notin> set l"
    and "k \<in> set (getAllBranches exec)"
  shows "\<exists>l\<in>set refs. \<not> excludedRef l \<and> k = replace (trim l) ''origin/'' ''''"
proof -
  from assms(3) obtain l where "l \<in> set refs"
    "\<not> includesStr l ''stash'' \<and> \<not> startsWith l ''tag:''"
    "k = replace (trim l) ''origin/'' ''''"
    unfolding getAllBranches_lines [of exec refs, OF assms(1,2)] by auto
  then show ?thesis
    unfolding excludedRef_def by blast
qed

text \<open>
  Claim C10. A ref whose line contains \<open>stash\<close> anywhere, or starts with \<open>tag:\<close>, has no
  part in the aggregation, also when it is an ordinary branch of the user:
  the result is what it is for the listing without these refs, every key of the result
  is the name of a listed ref that is not such a ref, and the name of such a ref is no
  key of the result (as long as no other, listed and kept, ref is given the same name).
\<close>

theorem getCommitsByBranch_excluded_refs:
  assumes "exec gitBranchCommand = Some (joinLines refs)"
    and "\<forall>l\<in>set refs. CHR 0x0A \<notin> set l"
  shows "getCommitsByBranch exec s e a
           = getCommitsByBranch
               (exec(gitBranchCommand := Some (joinLines (filter (\<lambda>l. \<not> excludedRef l) refs)))) s e a
         \<and> (\<forall>k\<in>set (Object_keys (getCommitsByBranch exec s e a)).
               \<exists>l\<in>set refs. \<not> excludedRef l \<and> k = replace (trim l) ''origin/'' '''')
         \<and> (\<forall>l\<in>set refs.
               excludedRef l \<and>
               (\<forall>l'\<in>set refs. \<not> excludedRef l' \<longrightarrow>
                  replace (trim l') ''origin/'' '''' \<noteq> replace (trim l) ''origin/'' '''')
               \<longrightarrow> replace (trim l) ''origin/'' '''' \<notin> set (Object_keys (getCommitsByBranch exec s e a)))"
proof (intro conjI ballI impI)
  let ?exec' = "exec(gitBranchCommand := Some (joinLines (filter (\<lambda>l. \<not> excludedRef l) refs)))"
  have "getCommitsByBranch ?exec' s e a = getCommitsByBranch exec s e a"
    using getAllBranches_without_excluded [of exec refs, OF assms]
    by (rule getCommitsByBranch_cong) simp
  then show "getCommitsByBranch exec s e a = getCommitsByBranch ?exec' s e a"
    by (rule sym)
next
  fix k
  assume "k \<in> set (Object_keys (getCommitsByBranch exec s e a))"
  then have "k \<in> set (getAllBranches exec)"
    using getCommitsByBranch_keys [of exec s e a] by (rule subsetD [rotated])
  then show "\<exists>l\<in>set refs. \<not> excludedRef l \<and> k = replace (trim l) ''origin/'' ''''"
    by (rule getAllBranches_origin [of exec refs, OF assms])
next
  fix l
  assume l: "l \<in> set refs"
    and h: "excludedRef l \<and>
      (\<forall>l'\<in>set refs. \<not> excludedRef l' \<longrightarrow>
         replace (trim l') ''origin/'' '''' \<noteq> replace (trim l) ''origin/'' '''')"
  show "replace (trim l) ''origin/'' '''' \<notin> set (Object_keys (getCommitsByBranch exec s e a))"
  proof
    assume "replace (trim l) ''origin/'' '''' \<in> set (Object_keys (getCommitsByBranch exec s e a))"
    then have "replace (trim l) ''origin/'' '''' \<in> set (getAllBranches exec)"
      using getCommitsByBranch_keys [of exec s e a] by (rule subsetD [rotated])
    then obtain l' where "l' \<in> set refs" "\<not> excludedRef l'"
      "replace (trim l) ''origin/'' '''' = replace (trim l') ''origin/'' ''''"
      using getAllBranches_origin [of exec refs, OF assms] by blast
    then show False
      using h by metis
  qed
qed

theorem getCommitsByBranch_excluded_refs_witness:
  "stashRepo gitBranchCommand = Some (joinLines [''main'', ''fix-stash-bug'']) \<and>
   excludedRef ''fix-stash-bug'' \<and>
   ''fix-stash-bug'' \<notin> set (Object_keys (getCommitsByBranch stashRepo 0 0 None)) \<and>
   getCommitsByBranch stashRepo 0 0 None
     = getCommitsByBranch (stashRepo(gitBranchCommand := Some (joinLines [''main'']))) 0 0 None"
proof -
  let ?refs = "[''main'', ''fix-stash-bug'']"
  have a: "stashRepo gitBranchCommand = Some (joinLines ?refs)"
    by (simp add: stashRepo_def)
  have b: "\<forall>l\<in>set ?refs. CHR 0x0A \<notin> set l"
    by simp
  have x: "excludedRef ''fix-stash-bug''" "\<not> excludedRef ''main''"
    by (simp_all add: excludedRef_def startsWith_def)
  have n: "replace (trim ''main'') ''origin/'' '''' = ''main''"
    "replace (trim ''fix-stash-bug'') ''origin/'' '''' = ''fix-stash-bug''"
    by (simp_all add: trim_def isWhiteSpace_def startsWith_def)
  have f: "filter (\<lambda>l. \<not> excludedRef l) ?refs = [''main'']"
    using x by simp
  note t = getCommitsByBranch_excluded_refs [of stashRepo ?refs 0 0 None, OF a b]
  have same: "getCommitsByBranch stashRepo 0 0 None
     = getCommitsByBranch (stashRepo(gitBranchCommand := Some (joinLines [''main'']))) 0 0 None"
    using t unfolding f by (rule conjunct1)
  have "''fix-stash-bug'' \<in> set ?refs"
    by simp
  moreover have "\<forall>l'\<in>set ?refs. \<not> excludedRef l' \<longrightarrow>
      replace (trim l') ''origin/'' '''' \<noteq> replace (trim ''fix-stash-bug'') ''origin/'' ''''"
    using x unfolding n by (simp add: n)
  ultimately have "replace (trim ''fix-stash-bug'') ''origin/'' ''''
      \<notin> set (Object_keys (getCommitsByBranch stashRepo 0 0 None))"
    using t x(1) by blast
  then have "''fix-stash-bug'' \<notin> set (Object_keys (getCommitsByBranch stashRepo 0 0 None))"
    unfolding n .
  then show ?thesis
    using a x(1) same by (intro conjI)
qed

subsection \<open>Names and the remote prefix\<close>

lemma length_dropWhile_less:
  "xs \<noteq> [] \<Longrightarrow> P (hd xs) \<Longrightarrow> length (dropWhile P xs) < length xs"
  using length_dropWhile_le [of P "tl xs"] by (cases xs) auto

lemma length_trim_le: "length (trim s) \<le> length (dropWhile isWhiteSpace s)"
  using length_dropWhile_le [of isWhiteSpace "rev (dropWhile isWhiteSpace s)"]
  by (simp add: trim_def)

lemma trim_fixed_ends:
  assumes "trim s = s" and "s \<noteq> []"
  shows "\<not> isWhiteSpace (hd s) \<and> \<not> isWhiteSpace (last s)"
proof (intro conjI notI)
  assume "isWhiteSpace (hd s)"
  then have "length (dropWhile isWhiteSpace s) < length s"
    using assms(2) by (intro length_dropWhile_less)
  then show False
    using length_trim_le [of s] assms(1) by simp
next
  assume w: "isWhiteSpace (last s)"
  have "length (trim s) = length (dropWhile isWhiteSpace (rev (dropWhile isWhiteSpace s)))"
    by (simp add: trim_def)
  moreover have "length (dropWhile isWhiteSpace s) \<le> length s"
    by (rule length_dropWhile_le)
  moreover have "length (dropWhile isWhiteSpace (rev (dropWhile isWhiteSpace s)))
      \<le> length (dropWhile isWhiteSpace s)"
    using length_dropWhile_le [of isWhiteSpace "rev (dropWhile isWhiteSpace s)"] by simp
  ultimately have d: "dropWhile isWhiteSpace s = s"
    using assms(1) by (metis dropWhile_eq_self_iff length_dropWhile_less not_less)
  have "length (dropWhile isWhiteSpace (rev s)) < length (rev s)"
    using assms(2) w by (intro length_dropWhile_less) (simp_all add: hd_rev)
  then have "length (trim s) < length s"
    by (simp add: trim_def d)
  then show False
    using assms(1) by simp
qed

lemma trim_id:
  assumes "s \<noteq> []" "\<not> isWhiteSpace (hd s)" "\<not> isWhiteSpace (last s)"
  shows "trim s = s"
proof -
  have "dropWhile isWhiteSpace s = s"
    using assms by (simp add: dropWhile_eq_self_iff)
  moreover have "dropWhile isWhiteSpace (rev s) = rev s"
    using assms by (simp add: dropWhile_eq_self_iff hd_rev)
  ultimately show ?thesis
    by (simp add: trim_def)
qed

lemma trim_origin:
  assumes "trim n = n" and "n \<noteq> []"
  shows "trim (''origin/'' @ n) = ''origin/'' @ n"
proof (rule trim_id)
  show "''origin/'' @ n \<noteq> []" by simp
  show "\<not> isWhiteSpace (hd (''origin/'' @ n))"
    by (simp add: isWhiteSpace_def)
  show "\<not> isWhiteSpace (last (''origin/'' @ n))"
    using trim_fixed_ends [OF assms] assms(2) by simp
qed

lemma replace_absent: "\<not> includesStr s p \<Longrightarrow> replace s p r = s"
  by (induction s) auto

lemma replace_prefix: "p \<noteq> [] \<Longrightarrow> replace (p @ s) p r = r @ s"
  by (cases p) (simp_all add: startsWith_def)

lemma count_list_distinct: "distinct xs \<Longrightarrow> x \<in> set xs \<Longrightarrow> count_list xs x = 1"
  by (induction xs) auto

lemma excludedRef_origin: "excludedRef (''origin/'' @ n) = includesStr n ''stash''"
  by (simp add: excludedRef_def startsWith_def)

lemma getAllBranches_member:
  assumes "exec gitBranchCommand = Some (joinLines refs)"
    and "\<forall>l\<in>set refs. CHR 0x0A \<notin> set l"
    and "l \<in> set refs" "trim l \<noteq> []" "\<not> excludedRef l"
  shows "replace (trim l) ''origin/'' '''' \<in> set (getAllBranches exec)"
  unfolding getAllBranches_lines [of exec refs, OF assms(1,2)]
  using assms(3,4,5) by (auto simp: excludedRef_def)

text \<open>
  Claim C9 as stated fails: only the text \<open>origin/\<close> is removed. When the listing
  holds the local branch \<open>main\<close> and the remote-tracking branch \<open>upstream/main\<close>, the
  enumeration holds both: the second keeps its prefix and the two do not collapse.
\<close>

theorem getAllBranches_other_remote:
  "uniqueInOrder (getAllBranches upstreamRepo) = [''main'', ''upstream/main'']"
  by code_simp

text \<open>
  Claim C9, amended. The enumeration the aggregation consumes,
  \<open>uniqueInOrder (getAllBranches exec)\<close>, holds no name twice and is empty when the
  listing fails. A listed ref \<open>n\<close> and a listed ref \<open>origin/n\<close> both yield the one entry
  \<open>n\<close>, for every name \<open>n\<close> that is not blank, has no surrounding white space, does not
  contain the text \<open>origin/\<close> and is not excluded as a stash or tag ref. In
  particular a listed ref with such a name, \<open>upstream/main\<close> for one, is enumerated
  once, under that name.
\<close>

theorem getAllBranches_enumeration:
  "distinct (uniqueInOrder (getAllBranches exec)) \<and>
   (exec gitBranchCommand = None \<longrightarrow> uniqueInOrder (getAllBranches exec) = []) \<and>
   (\<forall>refs n.
      exec gitBranchCommand = Some (joinLines refs) \<and> (\<forall>l\<in>set refs. CHR 0x0A \<notin> set l) \<and>
      n \<noteq> [] \<and> trim n = n \<and> \<not> includesStr n ''origin/'' \<and> \<not> excludedRef n \<and>
      (n \<in> set refs \<or> ''origin/'' @ n \<in> set refs)
      \<longrightarrow> count_list (uniqueInOrder (getAllBranches exec)) n = 1)"
proof (intro conjI allI impI)
  show "distinct (uniqueInOrder (getAllBranches exec))"
    by (rule distinct_uniqueInOrder)
next
  assume "exec gitBranchCommand = None"
  then show "uniqueInOrder (getAllBranches exec) = []"
    by (simp add: getAllBranches_def uniqueInOrder_def)
next
  fix refs n
  assume h: "exec gitBranchCommand = Some (joinLines refs) \<and> (\<forall>l\<in>set refs. CHR 0x0A \<notin> set l) \<and>
      n \<noteq> [] \<and> trim n = n \<and> \<not> includesStr n ''origin/'' \<and> \<not> excludedRef n \<and>
      (n \<in> set refs \<or> ''origin/'' @ n \<in> set refs)"
  then have ex: "exec gitBranchCommand = Some (joinLines refs)"
    and nl: "\<forall>l\<in>set refs. CHR 0x0A \<notin> set l"
    and n: "n \<noteq> []" "trim n = n" "\<not> includesStr n ''origin/''" "\<not> excludedRef n"
    and mem: "n \<in> set refs \<or> ''origin/'' @ n \<in> set refs"
    by simp_all
  have "n \<in> set (getAllBranches exec)"
  proof (cases "n \<in> set refs")
    case True
    have "replace (trim n) ''origin/'' '''' \<in> set (getAllBranches exec)"
      using ex nl True n by (intro getAllBranches_member [of exec refs]) simp_all
    then show ?thesis
      using n by (simp add: replace_absent)
  next
    case False
    with mem have o: "''origin/'' @ n \<in> set refs"
      by simp
    have t: "trim (''origin/'' @ n) = ''origin/'' @ n"
      using n by (intro trim_origin)
    have x: "\<not> excludedRef (''origin/'' @ n)"
      using n(4) unfolding excludedRef_origin by (simp add: excludedRef_def)
    have "replace (trim (''origin/'' @ n)) ''origin/'' '''' \<in> set (getAllBranches exec)"
    proof (rule getAllBranches_member [of exec refs, OF ex nl o _ x])
      show "trim (''origin/'' @ n) \<noteq> []"
        using t by simp
    qed
    moreover have "replace (''origin/'' @ n) ''origin/'' '''' = '''' @ n"
      by (rule replace_prefix) simp
    ultimately show ?thesis
      unfolding t by simp
  qed
  then have "n \<in> set (uniqueInOrder (getAllBranches exec))"
    by (simp add: set_uniqueInOrder)
  then show "count_list (uniqueInOrder (getAllBranches exec)) n = 1"
    using distinct_uniqueInOrder [of "getAllBranches exec"] by (rule count_list_distinct [rotated])
qed

theorem getAllBranches_enumeration_witness:
  "noRepo gitBranchCommand = None \<and>
   uniqueInOrder (getAllBranches noRepo) = [] \<and>
   originRepo gitBranchCommand = Some (joinLines [''main'', ''origin/main'', ''origin/feature'']) \<and>
   ''main'' \<in> set [''main'', ''origin/main'', ''origin/feature''] \<and>
   ''origin/'' @ ''feature'' \<in> set [''main'', ''origin/main'', ''origin/feature''] \<and>
   count_list (uniqueInOrder (getAllBranches originRepo)) ''main'' = 1 \<and>
   count_list (uniqueInOrder (getAllBranches originRepo)) ''feature'' = 1"
proof -
  let ?refs = "[''main'', ''origin/main'', ''origin/feature'']"
  have f: "noRepo gitBranchCommand = None"
    by (simp add: noRepo_def)
  have e: "uniqueInOrder (getAllBranches noRepo) = []"
    using getAllBranches_enumeration [of noRepo] f by blast
  have a: "originRepo gitBranchCommand = Some (joinLines ?refs)"
    by (simp add: originRepo_def)
  have b: "\<forall>l\<in>set ?refs. CHR 0x0A \<notin> set l"
    by simp
  have m: "''main'' \<noteq> [] \<and> trim ''main'' = ''main'' \<and> \<not> includesStr ''main'' ''origin/''
      \<and> \<not> excludedRef ''main''"
    by (simp add: trim_def isWhiteSpace_def startsWith_def excludedRef_def)
  have g: "''feature'' \<noteq> [] \<and> trim ''feature'' = ''feature'' \<and> \<not> includesStr ''feature'' ''origin/''
      \<and> \<not> excludedRef ''feature''"
    by (simp add: trim_def isWhiteSpace_def startsWith_def excludedRef_def)
  have im: "''main'' \<in> set ?refs" and ig: "''origin/'' @ ''feature'' \<in> set ?refs"
    by simp_all
  note t = getAllBranches_enumeration [of originRepo, THEN conjunct2, THEN conjunct2, rule_format, of ?refs]
  have cm: "count_list (uniqueInOrder (getAllBranches originRepo)) ''main'' = 1"
    using a b m im by (intro t) blast
  have cg: "count_list (uniqueInOrder (getAllBranches originRepo)) ''feature'' = 1"
    using a b g ig by (intro t) blast
  show ?thesis
    using f e a im ig cm cg by (intro conjI)
qed

end
